theory Spec2Isabelle
  imports Main "HOL-Library.AList"
begin

section \<open>The send queue of a room (SendQueue.js)\<close>

text \<open>
  The development embeds the class \<open>SendQueue\<close> of the source (src/unnamed/part_000,
  lines 23 to 307). The queue is a record that is passed through every operation and
  returned updated; every \<open>throw\<close> of the source is a result \<open>Inl e\<close> or
  \<open>Some e\<close>; the durable store is part of the state, so that what a transaction
  commits can be compared with what the in-memory collection holds.

  The asynchronous functions are modelled by their sequential reading: an operation runs
  from its call to its return without another operation of the queue in between, and the
  detached send loop runs to its end when it is started.
\<close>

subsection \<open>JavaScript values\<close>

text \<open>
  The optional string fields of the source hold a string, \<open>null\<close> or \<open>undefined\<close>,
  and the source compares them with \<open>===\<close>, which tells the three apart.
\<close>

datatype jsstr = Undefined | Null | Str string

text \<open>JavaScript truthiness of such a value: only a non-empty string is truthy.\<close>

fun truthy :: "jsstr \<Rightarrow> bool" where
  "truthy (Str s) = (s \<noteq> [])"
| "truthy Undefined = False"
| "truthy Null = False"

text \<open>
  The errors the send loop tells apart: \<open>err instanceof ConnectionError\<close>, an error
  named \<open>HomeServerError\<close> with its \<open>statusCode\<close>, and everything else (a rejected
  storage request, a \<open>TypeError\<close>).
\<close>

datatype error = ConnectionError | HomeServerError int | StorageError | OtherError string

datatype SendStatus = Waiting | UploadingAttachments | Encrypting | Sending | Sent | Error

subsection \<open>Pending events\<close>

text \<open>
  The persisted data of a pending event, with the fields \<open>_createAndStoreEvent\<close>
  writes (lines 282 to 292) and the \<open>remoteId\<close> that sending adds. The content of an
  event is kept abstract as a string.
\<close>

record PendingEventData =
  roomId :: string
  queueIndex :: int
  eventType :: string
  content :: string
  relatedTxnId :: jsstr
  relatedEventId :: jsstr
  txnId :: string
  needsEncryption :: bool
  needsUpload :: bool
  remoteId :: jsstr

text \<open>
  Modelled from the spec: the class \<open>PendingEvent\<close> (PendingEvent.js) is not under
  src/. A pending event is its persisted data and its status (spec sections 3 and 4.1);
  a new one is Waiting. A pending event of the source is an object, and lines 156 and
  172 look for the object itself: \<open>oid\<close> is the identity of the object, a number that
  no other object of the queue has. A copy of an event that some caller holds (the list
  that \<open>removeRemoteEchos\<close> returns) keeps the \<open>oid\<close> of its object.
\<close>

record PendingEvent =
  oid :: nat
  data :: PendingEventData
  status :: SendStatus

text \<open>
  Modelled from the spec: the constructor of \<open>PendingEvent\<close> (not under src/), for the
  object with the identity \<open>n\<close>; a new event waits.
\<close>

definition createPendingEvent :: "nat \<Rightarrow> PendingEventData \<Rightarrow> PendingEvent" where
  "createPendingEvent n d = \<lparr>oid = n, data = d, status = Waiting\<rparr>"

text \<open>The key of the durable store: room and queue position (spec section 2).\<close>

type_synonym key = "string \<times> int"

definition pe_key :: "PendingEvent \<Rightarrow> key" where
  "pe_key pe = (roomId (data pe), queueIndex (data pe))"

text \<open>
  Modelled from the spec: the derived flags and the mutators of \<open>PendingEvent\<close>
  (spec section 4.1). A step that is done is no longer needed; \<open>needsSending\<close> is
  true once upload and encryption are done as required and no remote id is assigned.
\<close>

definition pe_needsUpload :: "PendingEvent \<Rightarrow> bool" where
  "pe_needsUpload pe = needsUpload (data pe)"

text \<open>Modelled from the spec: \<open>PendingEvent.needsEncryption\<close> (not under src/).\<close>

definition pe_needsEncryption :: "PendingEvent \<Rightarrow> bool" where
  "pe_needsEncryption pe = needsEncryption (data pe)"

text \<open>Modelled from the spec: \<open>PendingEvent.needsSending\<close> (not under src/), spec section 4.1.\<close>

definition pe_needsSending :: "PendingEvent \<Rightarrow> bool" where
  "pe_needsSending pe =
     (\<not> pe_needsUpload pe \<and> \<not> pe_needsEncryption pe \<and> \<not> truthy (remoteId (data pe)))"

text \<open>Modelled from the spec: the status of a \<open>PendingEvent\<close> (not under src/) is set by its mutators.\<close>

definition setStatus :: "SendStatus \<Rightarrow> PendingEvent \<Rightarrow> PendingEvent" where
  "setStatus s pe = pe\<lparr>status := s\<rparr>"

text \<open>Modelled from the spec: \<open>PendingEvent.setWaiting\<close> (not under src/).\<close>

definition setWaiting :: "PendingEvent \<Rightarrow> PendingEvent" where
  "setWaiting = setStatus Waiting"

text \<open>Modelled from the spec: \<open>PendingEvent.setEncrypting\<close> (not under src/).\<close>

definition setEncrypting :: "PendingEvent \<Rightarrow> PendingEvent" where
  "setEncrypting = setStatus Encrypting"

text \<open>Modelled from the spec: \<open>PendingEvent.setError\<close> (not under src/): the event is parked in status Error.\<close>

definition setError :: "PendingEvent \<Rightarrow> PendingEvent" where
  "setError = setStatus Error"

text \<open>Modelled from the spec: \<open>PendingEvent.setEncrypted\<close> (not under src/): the
  ciphertext type and content are stored and the step is done.\<close>

definition setEncrypted :: "string \<Rightarrow> string \<Rightarrow> PendingEvent \<Rightarrow> PendingEvent" where
  "setEncrypted ty c pe =
     pe\<lparr>data := (data pe)\<lparr>eventType := ty, content := c, needsEncryption := False\<rparr>\<rparr>"

text \<open>Modelled from the spec: \<open>PendingEvent.setRelatedEventId\<close> (not under src/).\<close>

definition setRelatedEventId :: "jsstr \<Rightarrow> PendingEvent \<Rightarrow> PendingEvent" where
  "setRelatedEventId rid pe = pe\<lparr>data := (data pe)\<lparr>relatedEventId := rid\<rparr>\<rparr>"

subsection \<open>The collaborators\<close>

text \<open>
  The operations of the durable store, for the fault oracle below: a store operation
  fails when the oracle says so.
\<close>

datatype store_op =
  OpGetMaxQueueIndex string | OpAdd key | OpUpdate key | OpRemove key | OpExists key | OpComplete

text \<open>
  The collaborators of the queue, none of them under src/, taken as parameters:
  \<open>isTxnId\<close> of common.js, the outcome of an attachment upload (an error, or the
  content with the uploaded attachments), of the room encryption (an error, or the
  ciphertext type and content), of the transport's send primitive (an error, or the
  server-assigned event id), and whether an operation of the store fails.
\<close>

record env =
  isTxnId :: "string \<Rightarrow> bool"
  upload :: "PendingEventData \<Rightarrow> error + string"
  encrypt :: "string \<Rightarrow> string \<Rightarrow> error + string \<times> string"
  hs_send :: "PendingEventData \<Rightarrow> error + string"
  store_fault :: "store_op \<Rightarrow> bool"

text \<open>The constant \<open>REDACTION_TYPE\<close> of room/common.js, which is not under src/.\<close>

definition REDACTION_TYPE :: string where
  "REDACTION_TYPE = ''m.room.redaction''"

subsection \<open>The durable store\<close>

text \<open>
  Modelled from the spec: the pending-event store and its transactions (the classes
  behind \<open>txn.pendingEvents\<close>) are not under src/. The store is a key-value store keyed
  by (room, queue position) with add, update, remove, exists and getMaxQueueIndex (spec
  sections 2 and 6). A read-write transaction works on a copy of the store;
  \<open>complete\<close> makes the copy the store, \<open>abort\<close> drops it.
\<close>

type_synonym store = "(key \<times> PendingEventData) list"

definition data_key :: "PendingEventData \<Rightarrow> key" where
  "data_key d = (roomId d, queueIndex d)"

text \<open>Modelled from the spec: \<open>exists\<close> of the pending-event store (not under src/).\<close>

definition store_exists :: "env \<Rightarrow> store \<Rightarrow> key \<Rightarrow> error + bool" where
  "store_exists e txn k =
     (if store_fault e (OpExists k) then Inl StorageError else Inr (map_of txn k \<noteq> None))"

text \<open>Modelled from the spec: \<open>update\<close> of the pending-event store (not under src/): it writes the record under its key.\<close>

definition store_update :: "env \<Rightarrow> store \<Rightarrow> PendingEventData \<Rightarrow> error + store" where
  "store_update e txn d =
     (if store_fault e (OpUpdate (data_key d)) then Inl StorageError
      else Inr (AList.update (data_key d) d txn))"

text \<open>Modelled from the spec: \<open>add\<close> of the pending-event store (not under src/).\<close>

definition store_add :: "env \<Rightarrow> store \<Rightarrow> PendingEventData \<Rightarrow> error + store" where
  "store_add e txn d =
     (if store_fault e (OpAdd (data_key d)) then Inl StorageError
      else Inr (AList.update (data_key d) d txn))"

text \<open>Modelled from the spec: \<open>remove\<close> of the pending-event store (not under src/).\<close>

definition store_remove :: "env \<Rightarrow> store \<Rightarrow> key \<Rightarrow> error + store" where
  "store_remove e txn k =
     (if store_fault e (OpRemove k) then Inl StorageError else Inr (AList.delete k txn))"

text \<open>The queue positions the store holds for a room.\<close>

definition room_indices :: "string \<Rightarrow> store \<Rightarrow> int list" where
  "room_indices r txn = map snd (filter (\<lambda>k. fst k = r) (map fst txn))"

fun max_list :: "int list \<Rightarrow> int option" where
  "max_list [] = None"
| "max_list (x # xs) = (case max_list xs of None \<Rightarrow> Some x | Some m \<Rightarrow> Some (max x m))"

text \<open>Modelled from the spec: \<open>getMaxQueueIndex\<close> of the pending-event store (not
  under src/): the greatest queue position of the room, none when the room has no record.\<close>

definition store_getMaxQueueIndex :: "env \<Rightarrow> store \<Rightarrow> string \<Rightarrow> error + int option" where
  "store_getMaxQueueIndex e txn r =
     (if store_fault e (OpGetMaxQueueIndex r) then Inl StorageError
      else Inr (max_list (room_indices r txn)))"

text \<open>
  Modelled from the spec: \<open>txn.complete()\<close> (the transaction class is not under src/):
  the commit, which the store may reject.
\<close>

definition txn_complete :: "env \<Rightarrow> store \<Rightarrow> error + store" where
  "txn_complete e txn = (if store_fault e OpComplete then Inl StorageError else Inr txn)"

subsection \<open>The sorted collection\<close>

text \<open>
  Modelled from the spec: \<open>SortedArray\<close> (observable/list/SortedArray.js) is not under
  src/. The collection is the ordered set of the pending events, sorted by
  \<open>queueIndex\<close> (spec section 4.2; the comparator of line 29), kept as a list.
  \<open>sa_set\<close> puts an event at its place; iteration is over the live collection: it
  starts at the first event and goes on with the first event after the position of
  the current one (spec section 4.2, enqueue guarantee).
\<close>

fun sa_set :: "PendingEvent \<Rightarrow> PendingEvent list \<Rightarrow> PendingEvent list" where
  "sa_set pe [] = [pe]"
| "sa_set pe (x # xs) =
     (if queueIndex (data pe) < queueIndex (data x) then pe # x # xs
      else if queueIndex (data pe) = queueIndex (data x) then pe # xs
      else x # sa_set pe xs)"

text \<open>Modelled from the spec: \<open>SortedArray.setManyUnsorted\<close> (not under src/).\<close>

definition setManyUnsorted :: "PendingEvent list \<Rightarrow> PendingEvent list" where
  "setManyUnsorted pes = foldr sa_set pes []"

text \<open>Modelled from the spec: \<open>SortedArray.remove(idx)\<close> (not under src/).\<close>

definition sa_remove :: "nat \<Rightarrow> 'a list \<Rightarrow> 'a list" where
  "sa_remove i xs = take i xs @ drop (Suc i) xs"

fun findIndex :: "('a \<Rightarrow> bool) \<Rightarrow> 'a list \<Rightarrow> nat option" where
  "findIndex P [] = None"
| "findIndex P (x # xs) = (if P x then Some 0 else map_option Suc (findIndex P xs))"

text \<open>
  \<open>array.indexOf(pendingEvent)\<close> (lines 156 and 172): the place of the object itself
  in the collection, none when the collection does not hold the object. The object is
  the event with the identity of \<open>pe\<close>. An object keeps its queue position for life (no
  line of the source assigns it after line 284), so the object with the identity of
  \<open>pe\<close> has the queue position of \<open>pe\<close> as well; an event that was given the
  position of \<open>pe\<close> later is another object and is not found.
\<close>

definition same_object :: "PendingEvent \<Rightarrow> PendingEvent \<Rightarrow> bool" where
  "same_object p pe = (oid p = oid pe \<and> queueIndex (data p) = queueIndex (data pe))"

definition indexOf :: "PendingEvent list \<Rightarrow> PendingEvent \<Rightarrow> nat option" where
  "indexOf pes pe = findIndex (\<lambda>p. same_object p pe) pes"

text \<open>
  Modelled from the spec: the iterator of \<open>SortedArray\<close> (not under src/): the place of
  the next event after the position \<open>cur\<close>.
\<close>

definition sa_next :: "int option \<Rightarrow> PendingEvent list \<Rightarrow> nat option" where
  "sa_next cur pes =
     (case cur of
        None \<Rightarrow> (if pes = [] then None else Some 0)
      | Some q \<Rightarrow> findIndex (\<lambda>p. q < queueIndex (data p)) pes)"

subsection \<open>The queue\<close>

text \<open>
  What the outside sees of a run, in order: the start of a send loop (the detached log
  item "send queue flush", line 52), the queue position the loop logs for the event it
  takes up (line 56), and a call of the transport's send primitive for a transaction id.
\<close>

datatype trace_item = LoopStart | Process int | Transmit string

text \<open>
  The state of a \<open>SendQueue\<close> (constructor, lines 24 to 34), with the durable store
  it was given and the trace. \<open>nextOid\<close> is the identity that the next object gets:
  the objects are numbered in the order in which \<open>_createPendingEvent\<close> makes them.
\<close>

record SendQueue =
  queueRoomId :: string
  storage :: store
  pendingEvents :: "PendingEvent list"
  isSending :: bool
  offline :: bool
  roomEncryption :: bool
  trace :: "trace_item list"
  nextOid :: nat

text \<open>Line 30: one object for each record, the first with the identity \<open>n\<close>.\<close>

fun createPendingEvents :: "nat \<Rightarrow> PendingEventData list \<Rightarrow> PendingEvent list" where
  "createPendingEvents n [] = []"
| "createPendingEvents n (d # ds) = createPendingEvent n d # createPendingEvents (Suc n) ds"

definition newSendQueue :: "string \<Rightarrow> store \<Rightarrow> PendingEventData list \<Rightarrow> SendQueue" where
  "newSendQueue r db ds =
     \<lparr>queueRoomId = r, storage = db,
      pendingEvents = setManyUnsorted (createPendingEvents 0 ds),
      isSending = False, offline = False, roomEncryption = False, trace = [],
      nextOid = length ds\<rparr>"

definition enableEncryption :: "SendQueue \<Rightarrow> SendQueue" where
  "enableEncryption q = q\<lparr>roomEncryption := True\<rparr>"

text \<open>A mutation of the object at place \<open>i\<close> of the collection.\<close>

definition mutate :: "nat \<Rightarrow> (PendingEvent \<Rightarrow> PendingEvent) \<Rightarrow> SendQueue \<Rightarrow> SendQueue" where
  "mutate i f q = q\<lparr>pendingEvents := (pendingEvents q)[i := f (pendingEvents q ! i)]\<rparr>"

text \<open>
  \<open>_tryUpdateEventWithTxn\<close> (lines 266 to 272): the record is written only when the
  transaction still finds its key.
\<close>

definition tryUpdateEventWithTxn :: "env \<Rightarrow> PendingEvent \<Rightarrow> store \<Rightarrow> error + store" where
  "tryUpdateEventWithTxn e pe txn =
     (case store_exists e txn (pe_key pe) of
        Inl err \<Rightarrow> Inl err
      | Inr True \<Rightarrow> store_update e txn (data pe)
      | Inr False \<Rightarrow> Inr txn)"

text \<open>
  \<open>_tryUpdateEvent\<close> (lines 255 to 264). The source does not await the inner call
  (line 258), so its \<open>catch\<close> sees no rejection of it: a failed request leaves the
  transaction as it was, and the function goes on to \<open>txn.complete()\<close>.
\<close>

definition tryUpdateEvent :: "env \<Rightarrow> PendingEvent \<Rightarrow> SendQueue \<Rightarrow> error option \<times> SendQueue" where
  "tryUpdateEvent e pe q =
     (let txn = storage q;
          txn' = (case tryUpdateEventWithTxn e pe txn of Inl err \<Rightarrow> txn | Inr t \<Rightarrow> t)
      in case txn_complete e txn' of
           Inl err \<Rightarrow> (Some err, q)
         | Inr db \<Rightarrow> (None, q\<lparr>storage := db\<rparr>))"

text \<open>
  \<open>_resolveRemoteIdInPendingRelations\<close> (lines 120 to 131), over the collection from
  its first event on: an event that relates to \<open>txnId\<close> and does not have
  \<open>remoteId\<close> as its related event id gets it and is written in the transaction.
  The filter of line 121 and the loop of line 124 are one pass here: the filter reads
  only the fields of the event it is at, which the loop changes for no other event.
  A failed write stops the pass (the \<open>await\<close> of line 126 throws).
\<close>

fun resolveRemoteIdInPendingRelations ::
  "env \<Rightarrow> jsstr \<Rightarrow> jsstr \<Rightarrow> PendingEvent list \<Rightarrow> store \<Rightarrow> error option \<times> PendingEvent list \<times> store"
where
  "resolveRemoteIdInPendingRelations e t rid [] txn = (None, [], txn)"
| "resolveRemoteIdInPendingRelations e t rid (p # ps) txn =
     (if relatedTxnId (data p) = t \<and> relatedEventId (data p) \<noteq> rid then
        (let p' = setRelatedEventId rid p
         in case tryUpdateEventWithTxn e p' txn of
              Inl err \<Rightarrow> (Some err, p' # ps, txn)
            | Inr txn' \<Rightarrow>
                (case resolveRemoteIdInPendingRelations e t rid ps txn' of
                   (r, ps', txn'') \<Rightarrow> (r, p' # ps', txn'')))
      else
        (case resolveRemoteIdInPendingRelations e t rid ps txn of
           (r, ps', txn') \<Rightarrow> (r, p # ps', txn')))"

text \<open>
  The transaction of \<open>_sendEvent\<close> after a successful send (lines 107 to 116): the
  event with its remote id and the related events are written in one transaction; an
  error aborts it (the store stays as it was) and is thrown on.
\<close>

definition sendEvent_persist :: "env \<Rightarrow> nat \<Rightarrow> SendQueue \<Rightarrow> error option \<times> SendQueue" where
  "sendEvent_persist e i q =
     (let pe = pendingEvents q ! i;
          txn = storage q
      in case tryUpdateEventWithTxn e pe txn of
           Inl err \<Rightarrow> (Some err, q)
         | Inr txn1 \<Rightarrow>
             (case resolveRemoteIdInPendingRelations e (Str (txnId (data pe))) (remoteId (data pe))
                     (pendingEvents q) txn1 of
                (Some err, ps', txn2) \<Rightarrow> (Some err, q\<lparr>pendingEvents := ps'\<rparr>)
              | (None, ps', txn2) \<Rightarrow>
                  (case txn_complete e txn2 of
                     Inl err \<Rightarrow> (Some err, q\<lparr>pendingEvents := ps'\<rparr>)
                   | Inr db \<Rightarrow> (None, q\<lparr>pendingEvents := ps', storage := db\<rparr>))))"

text \<open>
  Modelled from the spec: \<open>PendingEvent.uploadAttachments\<close> and \<open>PendingEvent.send\<close>
  are not under src/ (spec sections 3 and 4.1). The upload sets the status, and when it
  succeeds stores the content and no longer needs the step. The send sets the status
  Sending, calls the transport with the transaction id, and when that succeeds stores
  the remote id and is Sent.
\<close>

definition uploadAttachments :: "env \<Rightarrow> nat \<Rightarrow> SendQueue \<Rightarrow> error option \<times> SendQueue" where
  "uploadAttachments e i q =
     (let q1 = mutate i (setStatus UploadingAttachments) q
      in case upload e (data (pendingEvents q1 ! i)) of
           Inl err \<Rightarrow> (Some err, q1)
         | Inr c \<Rightarrow>
             (None, mutate i (\<lambda>pe. pe\<lparr>data := (data pe)\<lparr>content := c, needsUpload := False\<rparr>\<rparr>) q1))"

text \<open>Modelled from the spec: \<open>PendingEvent.send\<close> (not under src/): see above; the
  call of the transport is recorded in the trace.\<close>

definition send :: "env \<Rightarrow> nat \<Rightarrow> SendQueue \<Rightarrow> error option \<times> SendQueue" where
  "send e i q =
     (let q1 = mutate i (setStatus Sending) q;
          d = data (pendingEvents q1 ! i);
          q2 = q1\<lparr>trace := trace q1 @ [Transmit (txnId d)]\<rparr>
      in case hs_send e d of
           Inl err \<Rightarrow> (Some err, q2)
         | Inr rid \<Rightarrow>
             (None, mutate i (\<lambda>pe. pe\<lparr>data := (data pe)\<lparr>remoteId := Str rid\<rparr>, status := Sent\<rparr>) q2))"

text \<open>The three steps of \<open>_sendEvent\<close> (lines 88 to 118), each with its guard.\<close>

definition sendEvent_upload :: "env \<Rightarrow> nat \<Rightarrow> SendQueue \<Rightarrow> error option \<times> SendQueue" where
  "sendEvent_upload e i q =
     (if pe_needsUpload (pendingEvents q ! i) then
        (case uploadAttachments e i q of
           (Some err, q1) \<Rightarrow> (Some err, q1)
         | (None, q1) \<Rightarrow> tryUpdateEvent e (pendingEvents q1 ! i) q1)
      else (None, q))"

text \<open>
  Line 95 calls \<open>this._roomEncryption.encrypt\<close>: without a room encryption the call
  throws a \<open>TypeError\<close>.
\<close>

definition sendEvent_encrypt :: "env \<Rightarrow> nat \<Rightarrow> SendQueue \<Rightarrow> error option \<times> SendQueue" where
  "sendEvent_encrypt e i q =
     (if pe_needsEncryption (pendingEvents q ! i) then
        (let q1 = mutate i setEncrypting q;
             d = data (pendingEvents q1 ! i)
         in case (if roomEncryption q1 then encrypt e (eventType d) (content d)
                  else Inl (OtherError ''TypeError'')) of
              Inl err \<Rightarrow> (Some err, q1)
            | Inr (ty, c) \<Rightarrow>
                (let q2 = mutate i (setEncrypted ty c) q1
                 in tryUpdateEvent e (pendingEvents q2 ! i) q2))
      else (None, q))"

definition sendEvent_send :: "env \<Rightarrow> nat \<Rightarrow> SendQueue \<Rightarrow> error option \<times> SendQueue" where
  "sendEvent_send e i q =
     (if pe_needsSending (pendingEvents q ! i) then
        (case send e i q of
           (Some err, q1) \<Rightarrow> (Some err, q1)
         | (None, q1) \<Rightarrow> sendEvent_persist e i q1)
      else (None, q))"

definition sendEvent :: "env \<Rightarrow> nat \<Rightarrow> SendQueue \<Rightarrow> error option \<times> SendQueue" where
  "sendEvent e i q =
     (case sendEvent_upload e i q of
        (Some err, q1) \<Rightarrow> (Some err, q1)
      | (None, q1) \<Rightarrow>
          (case sendEvent_encrypt e i q1 of
             (Some err, q2) \<Rightarrow> (Some err, q2)
           | (None, q2) \<Rightarrow> sendEvent_send e i q2))"

text \<open>
  \<open>_removeEvent\<close> (lines 155 to 168). A failed remove aborts the transaction and is
  not thrown on (lines 161 to 163); \<open>txn.complete()\<close> follows in either case, and the
  event leaves the collection when it returns.
\<close>

definition removeEvent :: "env \<Rightarrow> PendingEvent \<Rightarrow> SendQueue \<Rightarrow> error option \<times> SendQueue" where
  "removeEvent e pe q =
     (case indexOf (pendingEvents q) pe of
        None \<Rightarrow> (None, q)
      | Some idx \<Rightarrow>
          (let txn = storage q;
               txn' = (case store_remove e txn (pe_key pe) of Inl err \<Rightarrow> txn | Inr t \<Rightarrow> t)
           in case txn_complete e txn' of
                Inl err \<Rightarrow> (Some err, q)
              | Inr db \<Rightarrow> (None, q\<lparr>storage := db, pendingEvents := sa_remove idx (pendingEvents q)\<rparr>)))"

text \<open>
  Modelled from the spec: \<open>PendingEvent.abort\<close> is not under src/. It requests the
  removal from the owning queue (spec section 4.1), which is the callback of line 39.
\<close>

definition abort :: "env \<Rightarrow> PendingEvent \<Rightarrow> SendQueue \<Rightarrow> error option \<times> SendQueue" where
  "abort e pe q = removeEvent e pe q"

text \<open>The classification of line 66.\<close>

definition isPermanentError :: "error \<Rightarrow> bool" where
  "isPermanentError err =
     (case err of HomeServerError c \<Rightarrow> c = 400 \<or> c = 403 \<or> c = 404 | _ \<Rightarrow> False)"

text \<open>
  The body of the send loop for the event at place \<open>i\<close> (lines 57 to 78). An error of
  \<open>abort\<close> is thrown out of the \<open>catch\<close> block and ends the loop.
\<close>

definition sendLoop_body :: "env \<Rightarrow> nat \<Rightarrow> SendQueue \<Rightarrow> error option \<times> SendQueue" where
  "sendLoop_body e i q =
     (case sendEvent e i q of
        (None, q1) \<Rightarrow> (None, q1)
      | (Some err, q1) \<Rightarrow>
          (if err = ConnectionError then (None, mutate i setWaiting (q1\<lparr>offline := True\<rparr>))
           else if isPermanentError err then abort e (pendingEvents q1 ! i) q1
           else (None, mutate i setError q1)))"

subsection \<open>What sending leaves as it is\<close>

text \<open>
  Processing an event changes fields of the events of the collection and removes at most
  one event; it adds none and changes no room, queue position or transaction id. The
  loop below terminates for that reason.
\<close>

lemma map_update_same:
  "g (f (xs ! i)) = g (xs ! i) \<Longrightarrow> map g (xs[i := f (xs ! i)]) = map g xs"
  by (cases "i < length xs") (simp_all add: map_update list_update_same_conv list_update_beyond)

lemma map_update_keep:
  "(i < length xs \<Longrightarrow> g y = g (xs ! i)) \<Longrightarrow> map g (xs[i := y]) = map g xs"
  by (cases "i < length xs") (simp_all add: map_update list_update_same_conv list_update_beyond)

lemma mutate_fields [simp]:
  "storage (mutate i f q) = storage q" "trace (mutate i f q) = trace q"
  "isSending (mutate i f q) = isSending q" "offline (mutate i f q) = offline q"
  "queueRoomId (mutate i f q) = queueRoomId q" "roomEncryption (mutate i f q) = roomEncryption q"
  "length (pendingEvents (mutate i f q)) = length (pendingEvents q)"
  by (simp_all add: mutate_def)

lemma mutate_map:
  "(\<And>p. g (f p) = g p) \<Longrightarrow> map g (pendingEvents (mutate i f q)) = map g (pendingEvents q)"
  by (simp add: mutate_def map_update_same)

lemma resolve_map:
  "(\<And>p r. g (setRelatedEventId r p) = g p) \<Longrightarrow>
   resolveRemoteIdInPendingRelations e t rid ps txn = (r, ps', txn') \<Longrightarrow> map g ps' = map g ps"
  by (induction ps arbitrary: txn r ps' txn') (auto simp: Let_def split: if_splits sum.splits prod.splits)

lemma tryUpdateEvent_pes [simp]:
  "pendingEvents (snd (tryUpdateEvent e pe q)) = pendingEvents q"
  "trace (snd (tryUpdateEvent e pe q)) = trace q"
  by (simp_all add: tryUpdateEvent_def Let_def split: sum.splits)

text \<open>
  A reading \<open>g\<close> of a pending event that depends on its room, queue position and
  transaction id only: no mutator of the queue changes it.
\<close>

definition keeps :: "(PendingEvent \<Rightarrow> 'a) \<Rightarrow> bool" where
  "keeps g = (\<forall>p. (\<forall>s. g (p\<lparr>status := s\<rparr>) = g p) \<and> (\<forall>d. queueIndex d = queueIndex (data p) \<longrightarrow> roomId d = roomId (data p) \<longrightarrow> txnId d = txnId (data p) \<longrightarrow> g (p\<lparr>data := d\<rparr>) = g p))"

lemma keeps_qi: "keeps (\<lambda>p. queueIndex (data p))" by (simp add: keeps_def)

lemma sendEvent_persist_map:
  "keeps g \<Longrightarrow> map g (pendingEvents (snd (sendEvent_persist e i q))) = map g (pendingEvents q)"
  apply (simp add: sendEvent_persist_def Let_def split: sum.splits prod.splits option.splits)
  apply (auto dest!: resolve_map[where g=g, rotated] simp: keeps_def setRelatedEventId_def)
  done

lemma keeps_mutate:
  "keeps g \<Longrightarrow> (\<And>p. g (f p) = g p) \<Longrightarrow> map g (pendingEvents (mutate i f q)) = map g (pendingEvents q)"
  by (rule mutate_map)

lemma keeps_setStatus: "keeps g \<Longrightarrow> g (setStatus s p) = g p"
  by (simp add: keeps_def setStatus_def)

lemma keeps_data:
  "keeps g \<Longrightarrow> queueIndex d = queueIndex (data p) \<Longrightarrow> roomId d = roomId (data p) \<Longrightarrow>
   txnId d = txnId (data p) \<Longrightarrow> g (p\<lparr>data := d\<rparr>) = g p"
  by (simp add: keeps_def)

lemma keeps_status: "keeps g \<Longrightarrow> g (p\<lparr>status := s\<rparr>) = g p"
  by (simp add: keeps_def)

lemma uploadAttachments_map:
  "keeps g \<Longrightarrow> map g (pendingEvents (snd (uploadAttachments e i q))) = map g (pendingEvents q)"
  by (simp add: uploadAttachments_def Let_def mutate_map keeps_setStatus keeps_data split: sum.splits)

lemma send_map:
  "keeps g \<Longrightarrow> map g (pendingEvents (snd (send e i q))) = map g (pendingEvents q)"
  by (auto simp: send_def Let_def keeps_setStatus keeps_data keeps_status mutate_def
      intro!: map_update_keep split: sum.splits)

lemma sendEvent_upload_map:
  "keeps g \<Longrightarrow> map g (pendingEvents (snd (sendEvent_upload e i q))) = map g (pendingEvents q)"
  using uploadAttachments_map[of g e i q]
  by (auto simp: sendEvent_upload_def split: prod.splits option.splits)

lemma sendEvent_encrypt_map:
  "keeps g \<Longrightarrow> map g (pendingEvents (snd (sendEvent_encrypt e i q))) = map g (pendingEvents q)"
  by (simp add: sendEvent_encrypt_def Let_def mutate_map keeps_setStatus keeps_data setEncrypting_def setEncrypted_def
      split: sum.splits prod.splits)

lemma sendEvent_send_map:
  "keeps g \<Longrightarrow> map g (pendingEvents (snd (sendEvent_send e i q))) = map g (pendingEvents q)"
  using send_map[of g e i q] sendEvent_persist_map[of g e i "snd (send e i q)"]
  by (auto simp: sendEvent_send_def split: prod.splits option.splits)

lemma sendEvent_map:
  "keeps g \<Longrightarrow> map g (pendingEvents (snd (sendEvent e i q))) = map g (pendingEvents q)"
  using sendEvent_upload_map[of g e i q]
    sendEvent_encrypt_map[of g e i "snd (sendEvent_upload e i q)"]
    sendEvent_send_map[of g e i "snd (sendEvent_encrypt e i (snd (sendEvent_upload e i q)))"]
  by (auto simp: sendEvent_def split: prod.splits option.splits)

lemma removeEvent_map:
  "map g (pendingEvents (snd (removeEvent e pe q))) = map g (pendingEvents q) \<or>
   (\<exists>idx. map g (pendingEvents (snd (removeEvent e pe q))) = sa_remove idx (map g (pendingEvents q)))"
  by (auto simp: removeEvent_def Let_def sa_remove_def take_map drop_map split: option.splits sum.splits)

lemma sendLoop_body_map:
  assumes "keeps g"
  shows "map g (pendingEvents (snd (sendLoop_body e i q))) = map g (pendingEvents q) \<or>
   (\<exists>idx. map g (pendingEvents (snd (sendLoop_body e i q))) = sa_remove idx (map g (pendingEvents q)))"
proof -
  obtain r q1 where se: "sendEvent e i q = (r, q1)" by (cases "sendEvent e i q")
  have m: "map g (pendingEvents q1) = map g (pendingEvents q)"
    using sendEvent_map[OF assms, of e i q] se by simp
  show ?thesis
  proof (cases r)
    case None
    then show ?thesis using se m by (simp add: sendLoop_body_def)
  next
    case (Some err)
    show ?thesis
      using se Some m removeEvent_map[of g e "pendingEvents q1 ! i" q1] assms
      by (auto simp: sendLoop_body_def abort_def mutate_map setWaiting_def setError_def keeps_setStatus mutate_def map_update_same)
  qed
qed

lemma length_filter_sa_remove: "length (filter P (sa_remove i xs)) \<le> length (filter P xs)"
proof (cases "i < length xs")
  case True
  then have "xs = take i xs @ xs ! i # drop (Suc i) xs" by (rule id_take_nth_drop)
  then have "filter P xs = filter P (take i xs) @ filter P [xs ! i] @ filter P (drop (Suc i) xs)"
    by (metis append_Cons append_Nil filter_append)
  then show ?thesis by (simp add: sa_remove_def)
next
  case False
  then show ?thesis by (simp add: sa_remove_def)
qed

lemma length_filter_less:
  "x \<in> set xs \<Longrightarrow> P x \<Longrightarrow> \<not> Q x \<Longrightarrow> (\<And>y. Q y \<Longrightarrow> P y) \<Longrightarrow>
   length (filter Q xs) < length (filter P xs)"
proof (induction xs)
  case Nil
  then show ?case by simp
next
  case (Cons a xs)
  have le: "length (filter Q xs) \<le> length (filter P xs)"
    using Cons.prems(4) by (induction xs) auto
  show ?case
  proof (cases "x = a")
    case True
    then show ?thesis using Cons.prems le by simp
  next
    case False
    then have "length (filter Q xs) < length (filter P xs)" using Cons by simp
    then show ?thesis using Cons.prems(4) by auto
  qed
qed

lemma findIndex_Some:
  "findIndex P xs = Some i \<Longrightarrow> i < length xs \<and> P (xs ! i) \<and> (\<forall>j<i. \<not> P (xs ! j))"
proof (induction xs arbitrary: i)
  case Nil
  then show ?case by simp
next
  case (Cons a xs)
  then show ?case
    by (auto split: if_splits simp: nth_Cons split: nat.splits)
qed

lemma findIndex_None: "findIndex P xs = None \<longleftrightarrow> (\<forall>x\<in>set xs. \<not> P x)"
  by (induction xs) auto


subsection \<open>The send loop\<close>

text \<open>
  The number of events the iterator still has before it: all of them (and the start)
  before the first step, then the events after the current position.
\<close>

definition loop_measure :: "int option \<Rightarrow> SendQueue \<Rightarrow> nat" where
  "loop_measure cur q =
     (case cur of None \<Rightarrow> Suc (length (pendingEvents q))
      | Some c \<Rightarrow> length (filter (\<lambda>x. c < x) (map (\<lambda>p. queueIndex (data p)) (pendingEvents q))))"

lemma loop_measure_decreases:
  assumes nx: "sa_next cur (pendingEvents q) = Some i"
    and tr: "pendingEvents q0 = pendingEvents q"
  shows "loop_measure (Some (queueIndex (data (pendingEvents q ! i)))) (snd (sendLoop_body e i q0))
         < loop_measure cur q"
proof -
  let ?g = "\<lambda>p. queueIndex (data p)"
  let ?c = "queueIndex (data (pendingEvents q ! i))"
  let ?q1 = "snd (sendLoop_body e i q0)"
  have le: "length (filter P (map ?g (pendingEvents ?q1))) \<le> length (filter P (map ?g (pendingEvents q)))" for P
    using sendLoop_body_map[OF keeps_qi, of e i q0] tr
    by (metis length_filter_sa_remove order_refl)
  show ?thesis
  proof (cases cur)
    case None
    have "length (filter (\<lambda>x. ?c < x) (map ?g (pendingEvents ?q1))) \<le> length (map ?g (pendingEvents q))"
      using le[of "\<lambda>x. ?c < x"] length_filter_le[of "\<lambda>x. ?c < x" "map ?g (pendingEvents q)"] by linarith
    then show ?thesis using None by (simp add: loop_measure_def)
  next
    case (Some c)
    then have fi: "findIndex (\<lambda>p. c < ?g p) (pendingEvents q) = Some i" using nx by (simp add: sa_next_def)
    then have i: "i < length (pendingEvents q)" and ci: "c < ?c" using findIndex_Some[OF fi] by auto
    have "?c \<in> set (map ?g (pendingEvents q))" using i by (metis length_map nth_map nth_mem)
    then have "length (filter (\<lambda>x. ?c < x) (map ?g (pendingEvents q))) < length (filter (\<lambda>x. c < x) (map ?g (pendingEvents q)))"
      using ci by (rule length_filter_less) (use ci in auto)
    then show ?thesis using Some le[of "\<lambda>x. ?c < x"] by (simp add: loop_measure_def)
  qed
qed

text \<open>
  The loop of \<open>_sendLoop\<close> (line 54) from the iterator position \<open>cur\<close> on:
  the next event of the live collection is logged and processed; an error thrown by
  the body ends the loop.
\<close>

function sendLoop_iter :: "env \<Rightarrow> int option \<Rightarrow> SendQueue \<Rightarrow> error option \<times> SendQueue" where
  "sendLoop_iter e cur q =
     (case sa_next cur (pendingEvents q) of
        None \<Rightarrow> (None, q)
      | Some i \<Rightarrow>
          (let c = queueIndex (data (pendingEvents q ! i));
               q0 = q\<lparr>trace := trace q @ [Process c]\<rparr>
           in case sendLoop_body e i q0 of
                (Some err, q1) \<Rightarrow> (Some err, q1)
              | (None, q1) \<Rightarrow> sendLoop_iter e (Some c) q1))"
  by pat_completeness auto
termination
proof (relation "measure (\<lambda>(e, cur, q). loop_measure cur q)")
  show "wf (measure (\<lambda>(e, cur, q). loop_measure cur q))" by simp
next
  fix e :: env and cur q i c q0 r q1 x
  assume "sa_next cur (pendingEvents q) = Some i"
    and "c = queueIndex (data (pendingEvents q ! i))"
    and "q0 = q\<lparr>trace := trace q @ [Process c]\<rparr>"
    and "(r, q1) = sendLoop_body e i q0"
  then show "((e, Some c, q1), e, cur, q) \<in> measure (\<lambda>(e, cur, q). loop_measure cur q)"
    using loop_measure_decreases[of cur q i q0 e] by (simp add: snd_def split: prod.splits)
qed

declare sendLoop_iter.simps [simp del]

text \<open>
  \<open>_sendLoop\<close> (lines 50 to 86): the flag is set, the loop runs, and the
  \<open>finally\<close> clears the flag. The loop is detached: an error that ends it goes to
  the log, not to the caller.
\<close>

definition sendLoop :: "env \<Rightarrow> SendQueue \<Rightarrow> SendQueue" where
  "sendLoop e q =
     (let q0 = q\<lparr>isSending := True, trace := trace q @ [LoopStart]\<rparr>
      in (snd (sendLoop_iter e None q0))\<lparr>isSending := False\<rparr>)"

text \<open>\<open>resumeSending\<close> (lines 180 to 194).\<close>

definition resumeSending :: "env \<Rightarrow> SendQueue \<Rightarrow> SendQueue" where
  "resumeSending e q =
     (let q0 = q\<lparr>offline := False\<rparr>
      in if pendingEvents q0 \<noteq> [] then (if \<not> isSending q0 then sendLoop e q0 else q0) else q0)"

subsection \<open>Enqueueing\<close>

text \<open>
  \<open>_createAndStoreEvent\<close> (lines 274 to 300). \<open>attachments\<close> is whether the caller
  gave any (line 291 reads only that); \<open>newTxnId\<close> is what \<open>makeTxnId()\<close> returns
  (common.js is not under src/). Line 279 reads the greatest queue position of the room,
  and 0 when there is none or it is 0. The object of line 282 gets the next identity;
  when the transaction fails nothing holds the object and the queue is as before.
\<close>

definition createAndStoreEvent ::
  "env \<Rightarrow> string \<Rightarrow> string \<Rightarrow> jsstr \<Rightarrow> jsstr \<Rightarrow> bool \<Rightarrow> string \<Rightarrow> SendQueue
     \<Rightarrow> (error + PendingEvent) \<times> SendQueue"
where
  "createAndStoreEvent e ty c relTxnId relEventId attachments newTxnId q =
     (let txn = storage q
      in case store_getMaxQueueIndex e txn (queueRoomId q) of
           Inl err \<Rightarrow> (Inl err, q)
         | Inr m \<Rightarrow>
             (let maxQueueIndex = (case m of None \<Rightarrow> 0 | Some v \<Rightarrow> if v = 0 then 0 else v);
                  pe = createPendingEvent (nextOid q)
                    \<lparr>roomId = queueRoomId q, queueIndex = maxQueueIndex + 1, eventType = ty,
                     content = c, relatedTxnId = relTxnId, relatedEventId = relEventId,
                     txnId = newTxnId,
                     needsEncryption = (ty \<noteq> REDACTION_TYPE \<and> roomEncryption q),
                     needsUpload = attachments, remoteId = Undefined\<rparr>
              in case store_add e txn (data pe) of
                   Inl err \<Rightarrow> (Inl err, q)
                 | Inr txn1 \<Rightarrow>
                     (case txn_complete e txn1 of
                        Inl err \<Rightarrow> (Inl err, q)
                      | Inr db \<Rightarrow> (Inr pe, q\<lparr>storage := db, nextOid := Suc (nextOid q)\<rparr>))))"

text \<open>\<open>_enqueueEvent\<close> (lines 201 to 212) and \<open>enqueueEvent\<close> (lines 196 to 198).\<close>

definition enqueueEvent' ::
  "env \<Rightarrow> string \<Rightarrow> string \<Rightarrow> bool \<Rightarrow> jsstr \<Rightarrow> jsstr \<Rightarrow> string \<Rightarrow> SendQueue
     \<Rightarrow> error option \<times> SendQueue"
where
  "enqueueEvent' e ty c attachments relTxnId relEventId newTxnId q =
     (case createAndStoreEvent e ty c relTxnId relEventId attachments newTxnId q of
        (Inl err, q1) \<Rightarrow> (Some err, q1)
      | (Inr pe, q1) \<Rightarrow>
          (let q2 = q1\<lparr>pendingEvents := sa_set pe (pendingEvents q1)\<rparr>
           in if \<not> isSending q2 \<and> \<not> offline q2 then (None, sendLoop e q2) else (None, q2)))"

definition enqueueEvent ::
  "env \<Rightarrow> string \<Rightarrow> string \<Rightarrow> bool \<Rightarrow> string \<Rightarrow> SendQueue \<Rightarrow> error option \<times> SendQueue"
where
  "enqueueEvent e ty c attachments newTxnId q = enqueueEvent' e ty c attachments Null Null newTxnId q"

text \<open>
  \<open>enqueueRedaction\<close> (lines 214 to 249). The content of the redaction is its
  reason; \<open>relatedTxnId\<close> stays \<open>undefined\<close> when an event id matches no pending
  event (line 215 declares it without a value).
\<close>

definition enqueueRedaction ::
  "env \<Rightarrow> string \<Rightarrow> string \<Rightarrow> string \<Rightarrow> SendQueue \<Rightarrow> error option \<times> SendQueue"
where
  "enqueueRedaction e eventIdOrTxnId reason newTxnId q =
     (if isTxnId e eventIdOrTxnId then
        (case find (\<lambda>pe. txnId (data pe) = eventIdOrTxnId) (pendingEvents q) of
           Some pe \<Rightarrow>
             (if \<not> truthy (remoteId (data pe)) \<and> status pe \<noteq> Sending then abort e pe q
              else enqueueEvent' e REDACTION_TYPE reason False (Str eventIdOrTxnId)
                     (remoteId (data pe)) newTxnId q)
         | None \<Rightarrow> (None, q))
      else
        (let relTxnId =
               (case find (\<lambda>pe. remoteId (data pe) = Str eventIdOrTxnId) (pendingEvents q) of
                  Some pe \<Rightarrow> Str (txnId (data pe))
                | None \<Rightarrow> Undefined)
         in enqueueEvent' e REDACTION_TYPE reason False relTxnId (Str eventIdOrTxnId) newTxnId q))"

subsection \<open>Remote echoes\<close>

text \<open>
  What \<open>removeRemoteEchos\<close> reads of a synced event: \<open>unsigned.transaction_id\<close>
  (\<open>undefined\<close> when the event has none) and \<open>event_id\<close>.
\<close>

record RemoteEvent =
  transaction_id :: jsstr
  event_id :: string

text \<open>
  The index of lines 136 to 142: the first pending event with the transaction id of the
  synced event when that is truthy, the first with its event id as remote id otherwise.
\<close>

definition matchingIndex :: "RemoteEvent \<Rightarrow> PendingEvent list \<Rightarrow> nat option" where
  "matchingIndex ev pes =
     (if truthy (transaction_id ev)
      then findIndex (\<lambda>pe. Str (txnId (data pe)) = transaction_id ev) pes
      else findIndex (\<lambda>pe. remoteId (data pe) = Str (event_id ev)) pes)"

text \<open>
  \<open>removeRemoteEchos\<close> (lines 133 to 153), with the transaction of the caller and
  the list \<open>removed\<close> built so far. A store operation that fails throws out of the
  function; the transaction is the caller's to abort.
\<close>

fun removeRemoteEchos ::
  "env \<Rightarrow> RemoteEvent list \<Rightarrow> store \<Rightarrow> PendingEvent list \<Rightarrow> SendQueue
     \<Rightarrow> error option \<times> PendingEvent list \<times> store \<times> SendQueue"
where
  "removeRemoteEchos e [] txn removed q = (None, removed, txn, q)"
| "removeRemoteEchos e (ev # evs) txn removed q =
     (case matchingIndex ev (pendingEvents q) of
        None \<Rightarrow> removeRemoteEchos e evs txn removed q
      | Some i \<Rightarrow>
          (let pe = pendingEvents q ! i
           in case store_remove e txn (pe_key pe) of
                Inl err \<Rightarrow> (Some err, removed, txn, q)
              | Inr txn1 \<Rightarrow>
                  (case resolveRemoteIdInPendingRelations e (transaction_id ev) (Str (event_id ev))
                          (pendingEvents q) txn1 of
                     (Some err, ps', txn2) \<Rightarrow>
                       (Some err, removed @ [pe], txn2, q\<lparr>pendingEvents := ps'\<rparr>)
                   | (None, ps', txn2) \<Rightarrow>
                       removeRemoteEchos e evs txn2 (removed @ [pe]) (q\<lparr>pendingEvents := ps'\<rparr>))))"

text \<open>\<open>emitRemovals\<close> (lines 170 to 178).\<close>

fun emitRemovals :: "PendingEvent list \<Rightarrow> SendQueue \<Rightarrow> SendQueue" where
  "emitRemovals [] q = q"
| "emitRemovals (pe # pes) q =
     (case indexOf (pendingEvents q) pe of
        None \<Rightarrow> emitRemovals pes q
      | Some idx \<Rightarrow> emitRemovals pes (q\<lparr>pendingEvents := sa_remove idx (pendingEvents q)\<rparr>))"

subsection \<open>Readings of the trace and of the store\<close>

text \<open>
  How many send loops a trace starts, the queue positions the loops took up, and the
  transaction ids handed to the transport, each in order.
\<close>

fun loopStarts :: "trace_item list \<Rightarrow> nat" where
  "loopStarts [] = 0"
| "loopStarts (LoopStart # ts) = Suc (loopStarts ts)"
| "loopStarts (_ # ts) = loopStarts ts"

fun processed :: "trace_item list \<Rightarrow> int list" where
  "processed [] = []"
| "processed (Process c # ts) = c # processed ts"
| "processed (_ # ts) = processed ts"

fun transmitted :: "trace_item list \<Rightarrow> string list" where
  "transmitted [] = []"
| "transmitted (Transmit t # ts) = t # transmitted ts"
| "transmitted (_ # ts) = transmitted ts"

text \<open>
  The store performs the removal of an event: neither the remove of its key nor the
  commit fails.
\<close>

definition no_fault_removing :: "env \<Rightarrow> PendingEvent \<Rightarrow> bool" where
  "no_fault_removing e pe = (\<not> store_fault e (OpRemove (pe_key pe)) \<and> \<not> store_fault e OpComplete)"

text \<open>
  The filter of line 122: the event relates to the transaction id \<open>t\<close> and does not
  have \<open>rid\<close> as its related event id.
\<close>

definition unresolved_for :: "jsstr \<Rightarrow> jsstr \<Rightarrow> PendingEvent \<Rightarrow> bool" where
  "unresolved_for t rid p = (relatedTxnId (data p) = t \<and> relatedEventId (data p) \<noteq> rid)"

text \<open>The queue position the next enqueue gives: one more than the greatest of the room.\<close>

definition next_queueIndex :: "SendQueue \<Rightarrow> int" where
  "next_queueIndex q =
     (case max_list (room_indices (queueRoomId q) (storage q)) of None \<Rightarrow> 1 | Some m \<Rightarrow> m + 1)"

text \<open>The queue positions the iterator has before it at the position \<open>cur\<close>.\<close>

definition remaining :: "int option \<Rightarrow> int list \<Rightarrow> int list" where
  "remaining cur xs = (case cur of None \<Rightarrow> xs | Some c \<Rightarrow> filter (\<lambda>x. c < x) xs)"

subsection \<open>Concrete rooms\<close>

text \<open>
  An environment whose collaborators all succeed (the server answers a send with the
  event id \<open>$\<close> followed by the transaction id); a server that rejects every send
  with status 404, one that fails every send with status 500, and one that cannot be
  reached.
\<close>

definition env_ok :: env where
  "env_ok = \<lparr>isTxnId = (\<lambda>s. take 1 s = ''t''), upload = (\<lambda>d. Inr (content d)),
     encrypt = (\<lambda>ty c. Inr (''m.room.encrypted'', c)), hs_send = (\<lambda>d. Inr (''$'' @ txnId d)),
     store_fault = (\<lambda>_. False)\<rparr>"

definition env_404 :: env where
  "env_404 = env_ok\<lparr>hs_send := (\<lambda>d. Inl (HomeServerError 404))\<rparr>"


definition env_unreachable :: env where
  "env_unreachable = env_ok\<lparr>hs_send := (\<lambda>d. Inl ConnectionError)\<rparr>"

text \<open>A store that performs every request and rejects every commit.\<close>

definition env_commit_fails :: env where
  "env_commit_fails = env_ok\<lparr>store_fault := (\<lambda>op. op = OpComplete)\<rparr>"

text \<open>
  A plain message, and a redaction of the event with the local transaction id
  \<open>target\<close>, as the store holds them before they are sent.
\<close>

definition message :: "int \<Rightarrow> string \<Rightarrow> PendingEventData" where
  "message n t = \<lparr>roomId = ''!r'', queueIndex = n, eventType = ''m.room.message'', content = ''hi'',
     relatedTxnId = Null, relatedEventId = Null, txnId = t, needsEncryption = False,
     needsUpload = False, remoteId = Undefined\<rparr>"

definition redaction :: "int \<Rightarrow> string \<Rightarrow> string \<Rightarrow> PendingEventData" where
  "redaction n t target = \<lparr>roomId = ''!r'', queueIndex = n, eventType = REDACTION_TYPE, content = ''spam'',
     relatedTxnId = Str target, relatedEventId = Undefined, txnId = t, needsEncryption = False,
     needsUpload = False, remoteId = Undefined\<rparr>"

text \<open>
  Rooms: an empty one that is offline; an offline one with one message that waits in
  the collection and in the store; one with a message and a redaction of it that waits
  for the remote id of the message; one with two messages that wait.
\<close>

definition q_offline :: SendQueue where
  "q_offline = (newSendQueue ''!r'' [] [])\<lparr>offline := True\<rparr>"

definition q_waiting :: SendQueue where
  "q_waiting = (newSendQueue ''!r'' [((''!r'', 1), message 1 ''t1'')] [message 1 ''t1''])\<lparr>offline := True\<rparr>"

definition q_related :: SendQueue where
  "q_related = newSendQueue ''!r''
     [((''!r'', 1), message 1 ''t1''), ((''!r'', 2), redaction 2 ''t2'' ''t1'')]
     [message 1 ''t1'', redaction 2 ''t2'' ''t1'']"

definition q_two :: SendQueue where
  "q_two = newSendQueue ''!r''
     [((''!r'', 1), message 1 ''t1''), ((''!r'', 2), message 2 ''t2'')]
     [message 1 ''t1'', message 2 ''t2'']"

text \<open>The remote echo of the message with the transaction id \<open>t1\<close>.\<close>

definition echo_t1 :: RemoteEvent where
  "echo_t1 = \<lparr>transaction_id = Str ''t1'', event_id = ''$t1''\<rparr>"

text \<open>
  A race of the send loop with a remote echo. \<open>q_sending\<close> is the room with the one
  waiting message \<open>t1\<close>, online, its send loop running. The loop hands \<open>t1\<close> to the
  transport (line 105); \<open>sent_t1\<close> is the object the loop holds when the transport has
  answered. While the loop waits for the answer, the echo of \<open>t1\<close> is reconciled
  (\<open>removeRemoteEchos\<close>, the commit of the caller, \<open>emitRemovals\<close>) and a message
  \<open>t3\<close> is enqueued. Neither step reads what the answer sets (the echo carries the
  transaction id and is matched by it), so they are taken after the answer here.
  \<open>q_reused\<close> is the queue the loop finds when it opens its transaction (line 107).
\<close>

definition q_sending :: SendQueue where
  "q_sending = q_waiting\<lparr>offline := False, isSending := True\<rparr>"

definition sent_t1 :: PendingEvent where
  "sent_t1 = pendingEvents (snd (send env_ok 0 q_sending)) ! 0"

definition q_reused :: SendQueue where
  "q_reused =
     (let q1 = snd (send env_ok 0 q_sending)
      in case removeRemoteEchos env_ok [echo_t1] (storage q1) [] q1 of
           (r, removed, txn, q2) \<Rightarrow>
             snd (enqueueEvent env_ok ''m.room.message'' ''hi'' False ''t3''
                    (emitRemovals removed (q2\<lparr>storage := txn\<rparr>))))"

section \<open>Properties\<close>

subsection \<open>Updates write only records the store still has\<close>

lemma pe_key_data [simp]: "data_key (data pe) = pe_key pe"
  by (simp add: data_key_def pe_key_def)

lemma tryUpdateEventWithTxn_Inr:
  "tryUpdateEventWithTxn e pe txn = Inr txn' \<Longrightarrow>
   (if map_of txn (pe_key pe) = None then txn' = txn
    else map_of txn' = (map_of txn)(pe_key pe \<mapsto> data pe))"
  by (auto simp: tryUpdateEventWithTxn_def store_exists_def store_update_def update_conv'
      split: if_splits)

text \<open>
  When no record has the key of the event, the update writes nothing: the transaction
  and, through \<open>_tryUpdateEvent\<close>, the store stay as they are.
\<close>

lemma tryUpdateEvent_absent_key:
  "(case tryUpdateEventWithTxn e pe txn of
      Inl err \<Rightarrow> True
    | Inr txn' \<Rightarrow>
        (if map_of txn (pe_key pe) = None then txn' = txn
         else map_of txn' = (map_of txn)(pe_key pe \<mapsto> data pe))) \<and>
   (map_of (storage q) (pe_key pe) = None \<longrightarrow> storage (snd (tryUpdateEvent e pe q)) = storage q)"
proof
  show "case tryUpdateEventWithTxn e pe txn of
      Inl err \<Rightarrow> True
    | Inr txn' \<Rightarrow>
        (if map_of txn (pe_key pe) = None then txn' = txn
         else map_of txn' = (map_of txn)(pe_key pe \<mapsto> data pe))"
    by (simp add: tryUpdateEventWithTxn_Inr split: sum.splits)
next
  show "map_of (storage q) (pe_key pe) = None \<longrightarrow> storage (snd (tryUpdateEvent e pe q)) = storage q"
  proof
    assume n: "map_of (storage q) (pe_key pe) = None"
    have "tryUpdateEventWithTxn e pe (storage q) = Inr t \<Longrightarrow> t = storage q" for t
      using tryUpdateEventWithTxn_Inr[of e pe "storage q" t] n by simp
    then show "storage (snd (tryUpdateEvent e pe q)) = storage q"
      by (simp add: tryUpdateEvent_def Let_def txn_complete_def split: sum.splits)
  qed
qed


subsection \<open>What a run adds to the trace\<close>

lemma loopStarts_append [simp]: "loopStarts (xs @ ys) = loopStarts xs + loopStarts ys"
  by (induction xs rule: loopStarts.induct) auto

lemma processed_append [simp]: "processed (xs @ ys) = processed xs @ processed ys"
  by (induction xs rule: processed.induct) auto

lemma transmitted_append [simp]: "transmitted (xs @ ys) = transmitted xs @ transmitted ys"
  by (induction xs rule: transmitted.induct) auto

lemma keeps_txnId: "keeps (\<lambda>p. txnId (data p))" by (simp add: keeps_def)


lemma uploadAttachments_trace [simp]: "trace (snd (uploadAttachments e i q)) = trace q"
  by (simp add: uploadAttachments_def Let_def split: sum.splits)

lemma sendEvent_persist_trace [simp]: "trace (snd (sendEvent_persist e i q)) = trace q"
  by (simp add: sendEvent_persist_def Let_def split: sum.splits prod.splits option.splits)

lemma sendEvent_upload_trace [simp]: "trace (snd (sendEvent_upload e i q)) = trace q"
proof -
  have "trace (snd (tryUpdateEvent e pe (snd (uploadAttachments e i q)))) = trace q" for pe
    by simp
  then show ?thesis
    by (auto simp: sendEvent_upload_def split: prod.splits option.splits)
      (metis snd_conv uploadAttachments_trace)+
qed

lemma sendEvent_encrypt_trace [simp]: "trace (snd (sendEvent_encrypt e i q)) = trace q"
  by (simp add: sendEvent_encrypt_def Let_def split: sum.splits prod.splits)

lemma nth_update_field:
  "(\<And>p. g (f p) = g p) \<Longrightarrow> g ((xs[i := f (xs ! i)]) ! i) = g (xs ! i)"
  by (cases "i < length xs") (simp_all add: list_update_beyond)

lemma send_trace:
  "trace (snd (send e i q)) = trace q @ [Transmit (txnId (data (pendingEvents q ! i)))]"
proof -
  have "txnId (data ((pendingEvents q)[i := setStatus Sending (pendingEvents q ! i)] ! i))
        = txnId (data (pendingEvents q ! i))"
    by (rule nth_update_field) (simp add: setStatus_def)
  then show ?thesis
    by (simp add: send_def Let_def mutate_def split: sum.splits)
qed

lemma sendEvent_send_trace:
  "trace (snd (sendEvent_send e i q)) = trace q \<or>
   trace (snd (sendEvent_send e i q)) = trace q @ [Transmit (txnId (data (pendingEvents q ! i)))]"
proof (cases "pe_needsSending (pendingEvents q ! i)")
  case False
  then show ?thesis by (simp add: sendEvent_send_def)
next
  case True
  obtain r q1 where s: "send e i q = (r, q1)" by (cases "send e i q")
  then have t: "trace q1 = trace q @ [Transmit (txnId (data (pendingEvents q ! i)))]"
    using send_trace[of e i q] by simp
  show ?thesis
  proof (cases r)
    case None
    then show ?thesis using True s t by (simp add: sendEvent_send_def)
  next
    case (Some err)
    then show ?thesis using True s t by (simp add: sendEvent_send_def)
  qed
qed

lemma sendEvent_trace:
  assumes "i < length (pendingEvents q)"
  shows "trace (snd (sendEvent e i q)) = trace q \<or>
   trace (snd (sendEvent e i q)) = trace q @ [Transmit (txnId (data (pendingEvents q ! i)))]"
proof -
  obtain r1 q1 where u: "sendEvent_upload e i q = (r1, q1)" by (cases "sendEvent_upload e i q")
  obtain r2 q2 where c: "sendEvent_encrypt e i q1 = (r2, q2)" by (cases "sendEvent_encrypt e i q1")
  have t1: "trace q1 = trace q" using sendEvent_upload_trace[of e i q] u by simp
  have t2: "trace q2 = trace q" using sendEvent_encrypt_trace[of e i q1] c t1 by simp
  have m: "map (\<lambda>p. txnId (data p)) (pendingEvents q2) = map (\<lambda>p. txnId (data p)) (pendingEvents q)"
    using sendEvent_upload_map[OF keeps_txnId, of e i q] sendEvent_encrypt_map[OF keeps_txnId, of e i q1] u c
    by simp
  then have "length (pendingEvents q2) = length (pendingEvents q)" by (rule map_eq_imp_length_eq)
  then have tx: "txnId (data (pendingEvents q2 ! i)) = txnId (data (pendingEvents q ! i))"
    using m assms by (metis (mono_tags, lifting) nth_map)
  show ?thesis
  proof (cases r1)
    case (Some err)
    then show ?thesis using u t1 by (simp add: sendEvent_def)
  next
    case None
    show ?thesis
    proof (cases r2)
      case (Some err)
      then show ?thesis using u c None t2 by (simp add: sendEvent_def)
    next
      case n2: None
      then show ?thesis
        using u c None sendEvent_send_trace[of e i q2] tx t2 by (simp add: sendEvent_def)
    qed
  qed
qed

lemma removeEvent_trace [simp]: "trace (snd (removeEvent e pe q)) = trace q"
  by (simp add: removeEvent_def Let_def split: option.splits sum.splits)

lemma sendLoop_body_trace:
  assumes "i < length (pendingEvents q)"
  shows "trace (snd (sendLoop_body e i q)) = trace q \<or>
   trace (snd (sendLoop_body e i q)) = trace q @ [Transmit (txnId (data (pendingEvents q ! i)))]"
proof -
  obtain r q1 where se: "sendEvent e i q = (r, q1)" by (cases "sendEvent e i q")
  have "trace (snd (sendLoop_body e i q)) = trace q1"
    using se by (cases r) (simp_all add: sendLoop_body_def abort_def)
  then show ?thesis using sendEvent_trace[OF assms, of e] se by simp
qed

lemma sa_next_Some: "sa_next cur pes = Some i \<Longrightarrow> i < length pes"
  by (auto simp: sa_next_def split: option.splits if_splits dest: findIndex_Some)

lemma sendLoop_iter_loopStarts:
  "loopStarts (trace (snd (sendLoop_iter e cur q))) = loopStarts (trace q)"
proof (induction e cur q rule: sendLoop_iter.induct)
  case (1 e cur q)
  show ?case
  proof (cases "sa_next cur (pendingEvents q)")
    case None
    then show ?thesis by (subst sendLoop_iter.simps) simp
  next
    case (Some i)
    let ?c = "queueIndex (data (pendingEvents q ! i))"
    let ?q0 = "q\<lparr>trace := trace q @ [Process ?c]\<rparr>"
    obtain r q1 where b: "sendLoop_body e i ?q0 = (r, q1)" by (cases "sendLoop_body e i ?q0")
    have i: "i < length (pendingEvents ?q0)" using sa_next_Some[OF Some] by simp
    have t1: "loopStarts (trace q1) = loopStarts (trace q)"
      using sendLoop_body_trace[OF i, of e] b by auto
    show ?thesis
    proof (cases r)
      case None
      have "loopStarts (trace (snd (sendLoop_iter e (Some ?c) q1))) = loopStarts (trace q1)"
        using "1.IH"[OF Some refl refl b[symmetric] None] .
      then show ?thesis using Some b None t1 by (subst sendLoop_iter.simps) simp
    next
      case (Some err)
      then show ?thesis using \<open>sa_next cur (pendingEvents q) = Some i\<close> b t1
        by (subst sendLoop_iter.simps) simp
    qed
  qed
qed

lemma sendLoop_loopStarts: "loopStarts (trace (sendLoop e q)) = Suc (loopStarts (trace q))"
  by (simp add: sendLoop_def Let_def sendLoop_iter_loopStarts)

lemma createAndStoreEvent_Inl:
  "createAndStoreEvent e ty c rt re att t q = (Inl err, q1) \<Longrightarrow> q1 = q"
  by (auto simp: createAndStoreEvent_def Let_def split: sum.splits)

lemma createAndStoreEvent_Inr:
  "createAndStoreEvent e ty c rt re att t q = (Inr pe, q1) \<Longrightarrow>
   q1 = q\<lparr>storage := AList.update (pe_key pe) (data pe) (storage q), nextOid := Suc (nextOid q)\<rparr> \<and>
   oid pe = nextOid q \<and> status pe = Waiting \<and> roomId (data pe) = queueRoomId q \<and> txnId (data pe) = t \<and>
   queueIndex (data pe) = (case max_list (room_indices (queueRoomId q) (storage q)) of None \<Rightarrow> 1 | Some m \<Rightarrow> m + 1)"
  by (auto simp: createAndStoreEvent_def Let_def store_getMaxQueueIndex_def store_add_def txn_complete_def
      createPendingEvent_def pe_key_def data_key_def split: sum.splits if_splits option.splits)

subsection \<open>Enqueueing an event\<close>

lemma sa_set_mem: "pe \<in> set (sa_set pe xs)"
  by (induction xs) auto

lemma createAndStoreEvent_result:
  "createAndStoreEvent e ty c rt re att t q =
     (let pe = createPendingEvent (nextOid q)
                 \<lparr>roomId = queueRoomId q, queueIndex = next_queueIndex q, eventType = ty,
                  content = c, relatedTxnId = rt, relatedEventId = re, txnId = t,
                  needsEncryption = (ty \<noteq> REDACTION_TYPE \<and> roomEncryption q),
                  needsUpload = att, remoteId = Undefined\<rparr>
      in if store_fault e (OpGetMaxQueueIndex (queueRoomId q)) \<or>
            store_fault e (OpAdd (queueRoomId q, next_queueIndex q)) \<or>
            store_fault e OpComplete
         then (Inl StorageError, q)
         else (Inr pe, q\<lparr>storage := AList.update (queueRoomId q, next_queueIndex q) (data pe) (storage q),
                          nextOid := Suc (nextOid q)\<rparr>))"
proof -
  have n: "(case m of None \<Rightarrow> 0 | Some v \<Rightarrow> if v = 0 then 0 else v) + 1
         = (case m of None \<Rightarrow> 1 | Some (v::int) \<Rightarrow> v + 1)" for m
    by (simp split: option.splits)
  show ?thesis
    by (simp add: createAndStoreEvent_def Let_def store_getMaxQueueIndex_def store_add_def
        txn_complete_def createPendingEvent_def data_key_def next_queueIndex_def n)
qed

text \<open>
  C9: \<open>enqueueEvent\<close> adds the new pending event to the collection only after the
  transaction that stores its record has committed. The transaction fails exactly when
  the store fails to read the greatest queue position of the room, to add the record
  under the next queue position, or to commit; the call then returns the error and the
  queue, with its collection and its store, is as before. Otherwise the store holds the
  record of the new event under the next queue position, the collection holds the event,
  and the call starts a send loop exactly when no loop is running and the queue is not
  offline: it returns what the loop leaves of that queue, with one more loop start in
  the trace, in that case, and that queue itself, with no loop start, otherwise.
\<close>

theorem enqueueEvent_commit_before_add:
  "(store_fault e (OpGetMaxQueueIndex (queueRoomId q)) \<or>
    store_fault e (OpAdd (queueRoomId q, next_queueIndex q)) \<or>
    store_fault e OpComplete \<longrightarrow>
      enqueueEvent e ty c att t q = (Some StorageError, q)) \<and>
   (\<not> store_fault e (OpGetMaxQueueIndex (queueRoomId q)) \<and>
    \<not> store_fault e (OpAdd (queueRoomId q, next_queueIndex q)) \<and>
    \<not> store_fault e OpComplete \<longrightarrow>
      (let pe = createPendingEvent (nextOid q)
                  \<lparr>roomId = queueRoomId q, queueIndex = next_queueIndex q, eventType = ty,
                   content = c, relatedTxnId = Null, relatedEventId = Null, txnId = t,
                   needsEncryption = (ty \<noteq> REDACTION_TYPE \<and> roomEncryption q),
                   needsUpload = att, remoteId = Undefined\<rparr>;
           q2 = q\<lparr>storage := AList.update (queueRoomId q, next_queueIndex q) (data pe) (storage q),
                  nextOid := Suc (nextOid q),
                  pendingEvents := sa_set pe (pendingEvents q)\<rparr>
       in map_of (storage q2) (queueRoomId q, next_queueIndex q) = Some (data pe) \<and>
          pe \<in> set (pendingEvents q2) \<and>
          enqueueEvent e ty c att t q =
            (None, if \<not> isSending q \<and> \<not> offline q then sendLoop e q2 else q2) \<and>
          loopStarts (trace (snd (enqueueEvent e ty c att t q))) =
            loopStarts (trace q) + (if \<not> isSending q \<and> \<not> offline q then 1 else 0)))"
  by (simp add: enqueueEvent_def enqueueEvent'_def createAndStoreEvent_result Let_def update_conv'
      sendLoop_loopStarts sa_set_mem)

theorem enqueueEvent_commit_before_add_witness:
  "enqueueEvent env_commit_fails ''m.room.message'' ''hi'' False ''t1'' q_offline
     = (Some StorageError, q_offline) \<and>
   enqueueEvent env_ok ''m.room.message'' ''hi'' False ''t1'' q_offline
     = (None, q_offline\<lparr>storage := [((''!r'', 1), message 1 ''t1'')], nextOid := 1,
                        pendingEvents := [createPendingEvent 0 (message 1 ''t1'')]\<rparr>) \<and>
   loopStarts (trace (snd (enqueueEvent env_ok ''m.room.message'' ''hi'' False ''t1''
                              (newSendQueue ''!r'' [] [])))) = 1"
proof -
  let ?qn = "newSendQueue ''!r'' [] []"
  have f: "store_fault env_commit_fails (OpGetMaxQueueIndex (queueRoomId q_offline)) \<or>
           store_fault env_commit_fails (OpAdd (queueRoomId q_offline, next_queueIndex q_offline)) \<or>
           store_fault env_commit_fails OpComplete"
    by (simp add: env_commit_fails_def)
  have n: "\<not> store_fault env_ok (OpGetMaxQueueIndex (queueRoomId q)) \<and>
           \<not> store_fault env_ok (OpAdd (queueRoomId q, next_queueIndex q)) \<and>
           \<not> store_fault env_ok OpComplete" for q
    by (simp add: env_ok_def)
  have a: "enqueueEvent env_commit_fails ''m.room.message'' ''hi'' False ''t1'' q_offline
     = (Some StorageError, q_offline)"
    using enqueueEvent_commit_before_add[where e = env_commit_fails and q = q_offline
        and ty = "''m.room.message''" and c = "''hi''" and att = False and t = "''t1''"] f
    by blast
  note T = enqueueEvent_commit_before_add[where e = env_ok and ty = "''m.room.message''"
      and c = "''hi''" and att = False and t = "''t1''", THEN conjunct2, rule_format, OF n,
      unfolded Let_def]
  have o: "\<not> (\<not> isSending q_offline \<and> \<not> offline q_offline)"
    by (simp add: q_offline_def)
  have b: "enqueueEvent env_ok ''m.room.message'' ''hi'' False ''t1'' q_offline
     = (None, q_offline\<lparr>storage := [((''!r'', 1), message 1 ''t1'')], nextOid := 1,
                        pendingEvents := [createPendingEvent 0 (message 1 ''t1'')]\<rparr>)"
    using T[of q_offline, THEN conjunct2, THEN conjunct2, THEN conjunct1] o
    by (simp add: next_queueIndex_def room_indices_def q_offline_def newSendQueue_def
        createPendingEvent_def message_def setManyUnsorted_def REDACTION_TYPE_def)
  have s: "\<not> isSending ?qn \<and> \<not> offline ?qn" by (simp add: newSendQueue_def)
  have c: "loopStarts (trace (snd (enqueueEvent env_ok ''m.room.message'' ''hi'' False ''t1'' ?qn))) = 1"
    using T[of ?qn, THEN conjunct2, THEN conjunct2, THEN conjunct2] s
    by (simp add: newSendQueue_def)
  show ?thesis using a b c by simp
qed

subsection \<open>Redactions of pending events\<close>

lemma findIndex_distinct:
  "distinct (map g xs) \<Longrightarrow> pe \<in> set xs \<Longrightarrow> P pe \<Longrightarrow> (\<And>p. P p \<Longrightarrow> g p = g pe) \<Longrightarrow>
   \<exists>i. findIndex P xs = Some i \<and> sa_remove i xs = remove1 pe xs \<and> xs ! i = pe"
proof (induction xs)
  case Nil
  then show ?case by simp
next
  case (Cons a xs)
  show ?case
  proof (cases "a = pe")
    case True
    then show ?thesis using Cons.prems(3) by (simp add: sa_remove_def)
  next
    case False
    then have "g a \<noteq> g pe" using Cons.prems(1,2) by force
    then have na: "\<not> P a" using Cons.prems(4) by blast
    have d: "distinct (map g xs)" using Cons.prems(1) by simp
    have m: "pe \<in> set xs" using Cons.prems(2) False by simp
    have "\<exists>i. findIndex P xs = Some i \<and> sa_remove i xs = remove1 pe xs \<and> xs ! i = pe"
      by (rule Cons.IH[OF d m Cons.prems(3) Cons.prems(4)])
    then obtain i where "findIndex P xs = Some i" "sa_remove i xs = remove1 pe xs" "xs ! i = pe"
      by blast
    then show ?thesis using False na by (simp add: sa_remove_def)
  qed
qed

lemma find_Some_mem: "find P xs = Some x \<Longrightarrow> x \<in> set xs \<and> P x"
  by (induction xs) (auto split: if_splits)

lemma find_None_all: "find P xs = None \<Longrightarrow> \<forall>x\<in>set xs. \<not> P x"
  by (induction xs) (auto split: if_splits)

lemma removeEvent_ok:
  assumes d: "distinct (map (\<lambda>p. queueIndex (data p)) (pendingEvents q))"
    and m: "pe \<in> set (pendingEvents q)"
    and nf: "no_fault_removing e pe"
  shows "removeEvent e pe q =
    (None, q\<lparr>storage := AList.delete (pe_key pe) (storage q),
              pendingEvents := remove1 pe (pendingEvents q)\<rparr>)"
proof -
  have s: "same_object pe pe" by (simp add: same_object_def)
  have g: "same_object p pe \<Longrightarrow> queueIndex (data p) = queueIndex (data pe)" for p
    by (simp add: same_object_def)
  have "\<exists>i. findIndex (\<lambda>p. same_object p pe) (pendingEvents q) = Some i \<and>
            sa_remove i (pendingEvents q) = remove1 pe (pendingEvents q) \<and>
            pendingEvents q ! i = pe"
    by (rule findIndex_distinct[where g = "\<lambda>p. queueIndex (data p)" and P = "\<lambda>p. same_object p pe",
          OF d m s g])
  then obtain i where "findIndex (\<lambda>p. same_object p pe) (pendingEvents q) = Some i"
    "sa_remove i (pendingEvents q) = remove1 pe (pendingEvents q)"
    by blast
  then show ?thesis using nf
    by (simp add: removeEvent_def indexOf_def Let_def store_remove_def txn_complete_def no_fault_removing_def)
qed


lemma q_waiting_simps:
  "pendingEvents q_waiting = [createPendingEvent 0 (message 1 ''t1'')]"
  "storage q_waiting = [((''!r'', 1), message 1 ''t1'')]"
  "trace q_waiting = []"
  by (simp_all add: q_waiting_def newSendQueue_def setManyUnsorted_def)


subsection \<open>The transaction after a successful send\<close>

lemma tryUpdateEventWithTxn_map_of:
  "tryUpdateEventWithTxn e pe txn = Inr txn' \<Longrightarrow>
   map_of txn' k = (if k = pe_key pe \<and> map_of txn k \<noteq> None then Some (data pe) else map_of txn k)"
  using tryUpdateEventWithTxn_Inr[of e pe txn txn'] by (auto split: if_splits)

lemma pe_key_setRelatedEventId [simp]: "pe_key (setRelatedEventId rid p) = pe_key p"
  by (simp add: pe_key_def setRelatedEventId_def)

lemma resolve_memory:
  "resolveRemoteIdInPendingRelations e t rid ps txn = (None, ps', txn') \<Longrightarrow>
   ps' = map (\<lambda>p. if unresolved_for t rid p then setRelatedEventId rid p else p) ps"
  by (induction ps arbitrary: txn ps' txn')
    (auto simp: Let_def unresolved_for_def split: if_splits sum.splits prod.splits)

lemma resolve_store:
  "resolveRemoteIdInPendingRelations e t rid ps txn = (None, ps', txn') \<Longrightarrow>
   distinct (map pe_key ps) \<Longrightarrow>
   map_of txn' k =
     (case find (\<lambda>p. unresolved_for t rid p \<and> pe_key p = k) ps of
        Some p \<Rightarrow> if map_of txn k = None then None else Some (data (setRelatedEventId rid p))
      | None \<Rightarrow> map_of txn k)"
proof (induction ps arbitrary: txn ps' txn')
  case Nil
  then show ?case by simp
next
  case (Cons p ps)
  have dps: "distinct (map pe_key ps)" and pk: "pe_key p \<notin> pe_key ` set ps"
    using Cons.prems(2) by auto
  show ?case
  proof (cases "unresolved_for t rid p")
    case False
    then obtain r where "resolveRemoteIdInPendingRelations e t rid ps txn = (None, r, txn')"
      using Cons.prems(1) by (auto simp: unresolved_for_def split: prod.splits)
    then show ?thesis using Cons.IH[OF _ dps] False by simp
  next
    case True
    then obtain txn1 r where u: "tryUpdateEventWithTxn e (setRelatedEventId rid p) txn = Inr txn1"
      and rr: "resolveRemoteIdInPendingRelations e t rid ps txn1 = (None, r, txn')"
      using Cons.prems(1) by (auto simp: unresolved_for_def Let_def split: prod.splits sum.splits)
    have m1: "map_of txn1 k' = (if k' = pe_key p \<and> map_of txn k' \<noteq> None
                then Some (data (setRelatedEventId rid p)) else map_of txn k')" for k'
      using tryUpdateEventWithTxn_map_of[OF u, of k'] by simp
    have ih: "map_of txn' k =
     (case find (\<lambda>p. unresolved_for t rid p \<and> pe_key p = k) ps of
        Some p \<Rightarrow> if map_of txn1 k = None then None else Some (data (setRelatedEventId rid p))
      | None \<Rightarrow> map_of txn1 k)"
      using Cons.IH[OF rr dps] .
    show ?thesis
    proof (cases "pe_key p = k")
      case kp: True
      have "\<forall>x\<in>set ps. pe_key x \<noteq> k" using pk kp by (metis imageI)
      then have "find (\<lambda>p. unresolved_for t rid p \<and> pe_key p = k) ps = None"
        by (simp add: find_None_iff)
      then show ?thesis using ih m1[of k] True kp by simp
    next
      case kp: False
      then show ?thesis using ih m1[of k] True by (simp split: option.splits)
    qed
  qed
qed

lemma find_distinct_key:
  "distinct (map f xs) \<Longrightarrow> j < length xs \<Longrightarrow>
   find (\<lambda>p. P p \<and> f p = f (xs ! j)) xs = (if P (xs ! j) then Some (xs ! j) else None)"
proof (induction xs arbitrary: j)
  case Nil
  then show ?case by simp
next
  case (Cons a xs)
  show ?case
  proof (cases j)
    case 0
    have "\<forall>x\<in>set xs. f x \<noteq> f a" using Cons.prems(1) by (metis distinct.simps(2) imageI list.simps(9) set_map)
    then have "find (\<lambda>p. P p \<and> f p = f a) xs = None" by (simp add: find_None_iff)
    then show ?thesis using 0 by simp
  next
    case (Suc n)
    then have n: "n < length xs" using Cons.prems(2) by simp
    then have "f (xs ! n) \<noteq> f a" using Cons.prems(1) by (metis distinct.simps(2) imageI list.simps(9) nth_mem set_map)
    then show ?thesis using Suc Cons.IH[OF _ n] Cons.prems(1) by simp
  qed
qed

lemma sendEvent_persist_result:
  assumes d: "distinct (map pe_key (pendingEvents q))"
  shows "case sendEvent_persist e i q of
      (Some err, q') \<Rightarrow> storage q' = storage q
    | (None, q') \<Rightarrow>
        pendingEvents q' =
          map (\<lambda>p. if unresolved_for (Str (txnId (data (pendingEvents q ! i)))) (remoteId (data (pendingEvents q ! i))) p
                    then setRelatedEventId (remoteId (data (pendingEvents q ! i))) p else p) (pendingEvents q) \<and>
        (\<forall>k. map_of (storage q') k =
           (let m1 = (if k = pe_key (pendingEvents q ! i) \<and> map_of (storage q) k \<noteq> None
                      then Some (data (pendingEvents q ! i)) else map_of (storage q) k)
            in case find (\<lambda>p. unresolved_for (Str (txnId (data (pendingEvents q ! i)))) (remoteId (data (pendingEvents q ! i))) p \<and> pe_key p = k)
                      (pendingEvents q) of
                 Some p \<Rightarrow> if m1 = None then None
                           else Some (data (setRelatedEventId (remoteId (data (pendingEvents q ! i))) p))
               | None \<Rightarrow> m1))"
proof -
  let ?pe = "pendingEvents q ! i"
  show ?thesis
  proof (cases "tryUpdateEventWithTxn e ?pe (storage q)")
    case (Inl err)
    then show ?thesis by (simp add: sendEvent_persist_def)
  next
    case (Inr txn1)
    obtain r ps' txn2 where rr: "resolveRemoteIdInPendingRelations e (Str (txnId (data ?pe))) (remoteId (data ?pe))
        (pendingEvents q) txn1 = (r, ps', txn2)"
      by (metis prod_cases3)
    show ?thesis
    proof (cases r)
      case (Some err)
      then show ?thesis using Inr rr by (simp add: sendEvent_persist_def)
    next
      case None
      note rn = rr[unfolded None]
      show ?thesis
      proof (cases "txn_complete e txn2")
        case (Inl err)
        then show ?thesis using Inr rr None by (simp add: sendEvent_persist_def)
      next
        case c: (Inr db)
        then have db: "db = txn2" by (simp add: txn_complete_def split: if_splits)
        have mem: "ps' = map (\<lambda>p. if unresolved_for (Str (txnId (data ?pe))) (remoteId (data ?pe)) p
                    then setRelatedEventId (remoteId (data ?pe)) p else p) (pendingEvents q)"
          using resolve_memory[OF rn] .
        have st: "map_of txn2 k =
          (case find (\<lambda>p. unresolved_for (Str (txnId (data ?pe))) (remoteId (data ?pe)) p \<and> pe_key p = k) (pendingEvents q) of
             Some p \<Rightarrow> if map_of txn1 k = None then None else Some (data (setRelatedEventId (remoteId (data ?pe)) p))
           | None \<Rightarrow> map_of txn1 k)" for k
          using resolve_store[OF rn d] .
        have m1: "map_of txn1 k = (if k = pe_key ?pe \<and> map_of (storage q) k \<noteq> None
                      then Some (data ?pe) else map_of (storage q) k)" for k
          using tryUpdateEventWithTxn_map_of[OF Inr] .
        have fin: "map_of txn2 k =
           (let m1 = (if k = pe_key ?pe \<and> map_of (storage q) k \<noteq> None
                      then Some (data ?pe) else map_of (storage q) k)
            in case find (\<lambda>p. unresolved_for (Str (txnId (data ?pe))) (remoteId (data ?pe)) p \<and> pe_key p = k)
                      (pendingEvents q) of
                 Some p \<Rightarrow> if m1 = None then None
                           else Some (data (setRelatedEventId (remoteId (data ?pe)) p))
               | None \<Rightarrow> m1)" for k
          unfolding Let_def m1[symmetric] by (rule st)
        have res: "sendEvent_persist e i q = (None, q\<lparr>pendingEvents := ps', storage := txn2\<rparr>)"
          using Inr rr None c db by (simp add: sendEvent_persist_def)
        show ?thesis
          unfolding res using mem fin by (simp del: split_paired_All)
      qed
    qed
  qed
qed

lemma send_ok:
  assumes "i < length (pendingEvents q)" "hs_send e (data (pendingEvents q ! i)) = Inr rid"
  shows "fst (send e i q) = None" "storage (snd (send e i q)) = storage q"
    "pendingEvents (snd (send e i q)) =
       (pendingEvents q)[i := (pendingEvents q ! i)\<lparr>data := (data (pendingEvents q ! i))\<lparr>remoteId := Str rid\<rparr>, status := Sent\<rparr>]"
  using assms by (simp_all add: send_def Let_def mutate_def setStatus_def)

text \<open>
  C1: when the transmission of a pending event succeeds with the remote id \<open>rid\<close>,
  \<open>_sendEvent\<close> writes the event with its remote id and sets and writes the related
  event id of the pending events that relate to its transaction id in one transaction.
  If any step fails (an exists or update request, or the commit), the store is as it was
  before: no remote id is persisted. If the transaction commits, the record of the event
  holds the remote id, the record of every dependent event holds it as its related event
  id (for the events whose records the store still has), and in the collection every
  event that relates to the transaction id has the remote id as its related event id.
\<close>

theorem sendEvent_send_atomic:
  assumes i: "i < length (pendingEvents q)"
    and d: "distinct (map pe_key (pendingEvents q))"
    and ns: "pe_needsSending (pendingEvents q ! i)"
    and ok: "hs_send e (data (pendingEvents q ! i)) = Inr rid"
  shows "case sendEvent_send e i q of
      (Some err, q') \<Rightarrow> storage q' = storage q
    | (None, q') \<Rightarrow>
        (\<forall>j<length (pendingEvents q).
            map_of (storage q) (pe_key (pendingEvents q ! j)) \<noteq> None \<longrightarrow>
              (j = i \<longrightarrow>
                 map_option remoteId (map_of (storage q') (pe_key (pendingEvents q ! j))) = Some (Str rid)) \<and>
              (unresolved_for (Str (txnId (data (pendingEvents q ! i)))) (Str rid) (pendingEvents q ! j) \<longrightarrow>
                 map_option relatedEventId (map_of (storage q') (pe_key (pendingEvents q ! j))) = Some (Str rid))) \<and>
        (\<forall>p\<in>set (pendingEvents q').
            relatedTxnId (data p) = Str (txnId (data (pendingEvents q ! i))) \<longrightarrow>
            relatedEventId (data p) = Str rid)"
proof -
  let ?pe = "pendingEvents q ! i"
  let ?pe' = "?pe\<lparr>data := (data ?pe)\<lparr>remoteId := Str rid\<rparr>, status := Sent\<rparr>"
  let ?T = "Str (txnId (data ?pe))"
  let ?R = "Str rid"
  obtain r0 q2 where s: "send e i q = (r0, q2)" by (cases "send e i q")
  have r0: "r0 = None" and st2: "storage q2 = storage q"
    and ps2: "pendingEvents q2 = (pendingEvents q)[i := ?pe']"
    using send_ok[OF i ok] s by simp_all
  have eq: "sendEvent_send e i q = sendEvent_persist e i q2"
    using ns s r0 by (simp add: sendEvent_send_def)
  have at_i: "pendingEvents q2 ! i = ?pe'" using ps2 i by simp
  have keys: "map pe_key (pendingEvents q2) = map pe_key (pendingEvents q)"
    unfolding ps2 by (rule map_update_keep) (simp add: pe_key_def)
  have d2: "distinct (map pe_key (pendingEvents q2))" using keys d by simp
  have len: "length (pendingEvents q2) = length (pendingEvents q)" using ps2 by simp
  have T2: "Str (txnId (data (pendingEvents q2 ! i))) = ?T" and R2: "remoteId (data (pendingEvents q2 ! i)) = ?R"
    using at_i by simp_all
  have keyj: "pe_key (pendingEvents q2 ! j) = pe_key (pendingEvents q ! j)" if "j < length (pendingEvents q)" for j
    using keys that len by (metis nth_map)
  have unres: "unresolved_for ?T ?R (pendingEvents q2 ! j) = unresolved_for ?T ?R (pendingEvents q ! j)"
    if "j < length (pendingEvents q)" for j
    using that ps2 by (cases "j = i") (simp_all add: unresolved_for_def)
  note P = sendEvent_persist_result[OF d2, where e=e and i=i, unfolded T2 R2]
  obtain r q' where res: "sendEvent_persist e i q2 = (r, q')" by (cases "sendEvent_persist e i q2")
  show ?thesis
  proof (cases r)
    case (Some err)
    then show ?thesis using P res eq st2 by simp
  next
    case None
    have mem: "pendingEvents q' =
          map (\<lambda>p. if unresolved_for ?T ?R p then setRelatedEventId ?R p else p) (pendingEvents q2)"
      and sto: "\<And>k. map_of (storage q') k =
           (let m1 = (if k = pe_key (pendingEvents q2 ! i) \<and> map_of (storage q2) k \<noteq> None
                      then Some (data (pendingEvents q2 ! i)) else map_of (storage q2) k)
            in case find (\<lambda>p. unresolved_for ?T ?R p \<and> pe_key p = k) (pendingEvents q2) of
                 Some p \<Rightarrow> if m1 = None then None else Some (data (setRelatedEventId ?R p))
               | None \<Rightarrow> m1)"
      using P res None by (simp_all del: split_paired_All)
    have A: "(j = i \<longrightarrow>
                 map_option remoteId (map_of (storage q') (pe_key (pendingEvents q ! j))) = Some (Str rid)) \<and>
              (unresolved_for ?T ?R (pendingEvents q ! j) \<longrightarrow>
                 map_option relatedEventId (map_of (storage q') (pe_key (pendingEvents q ! j))) = Some (Str rid))"
      if j: "j < length (pendingEvents q)" and ex: "map_of (storage q) (pe_key (pendingEvents q ! j)) \<noteq> None" for j
    proof -
      have j2: "j < length (pendingEvents q2)" using j len by simp
      have f: "find (\<lambda>p. unresolved_for ?T ?R p \<and> pe_key p = pe_key (pendingEvents q ! j)) (pendingEvents q2)
            = (if unresolved_for ?T ?R (pendingEvents q ! j) then Some (pendingEvents q2 ! j) else None)"
        using find_distinct_key[OF d2 j2, of "unresolved_for ?T ?R"] keyj[OF j] unres[OF j] by simp
      show ?thesis
      proof (cases "j = i")
        case True
        then show ?thesis
          using sto[of "pe_key (pendingEvents q ! j)"] f ex keyj[OF j] st2 at_i
          by (simp add: Let_def setRelatedEventId_def)
      next
        case False
        then have ne: "pe_key (pendingEvents q ! j) \<noteq> pe_key (pendingEvents q ! i)"
          using d i j by (metis distinct_conv_nth length_map nth_map)
        have pj: "pendingEvents q2 ! j = pendingEvents q ! j" using ps2 False by simp
        have ki: "pe_key (pendingEvents q2 ! i) = pe_key (pendingEvents q ! i)" by (rule keyj[OF i])
        have "map_of (storage q') (pe_key (pendingEvents q ! j)) =
              (if unresolved_for ?T ?R (pendingEvents q ! j)
               then Some (data (setRelatedEventId ?R (pendingEvents q ! j)))
               else map_of (storage q) (pe_key (pendingEvents q ! j)))"
          unfolding sto[of "pe_key (pendingEvents q ! j)"] f ki st2 pj using ne ex
          by (auto simp: Let_def)
        then show ?thesis using False by (simp add: setRelatedEventId_def)
      qed
    qed
    have B: "relatedEventId (data p) = Str rid"
      if "p \<in> set (pendingEvents q')" "relatedTxnId (data p) = ?T" for p
      using that unfolding mem by (auto simp: unresolved_for_def setRelatedEventId_def split: if_splits)
    show ?thesis using eq res None A B by simp
  qed
qed

lemma q_related_simps:
  "pendingEvents q_related = [createPendingEvent 0 (message 1 ''t1''), createPendingEvent 1 (redaction 2 ''t2'' ''t1'')]"
  "storage q_related = [((''!r'', 1), message 1 ''t1''), ((''!r'', 2), redaction 2 ''t2'' ''t1'')]"
  "trace q_related = []" "isSending q_related = False" "offline q_related = False"
  "queueRoomId q_related = ''!r''" "roomEncryption q_related = False"
  by (simp_all add: q_related_def newSendQueue_def setManyUnsorted_def createPendingEvent_def
      message_def redaction_def)

theorem sendEvent_send_atomic_witness:
  "hs_send env_ok (data (pendingEvents q_related ! 0)) = Inr ''$t1'' \<and>
   fst (sendEvent_send env_ok 0 q_related) = None \<and>
   map_option remoteId (map_of (storage (snd (sendEvent_send env_ok 0 q_related))) (''!r'', 1)) = Some (Str ''$t1'') \<and>
   map_option relatedEventId (map_of (storage (snd (sendEvent_send env_ok 0 q_related))) (''!r'', 2)) = Some (Str ''$t1'')"
proof -
  have 1: "0 < length (pendingEvents q_related)" by (simp add: q_related_simps)
  have 2: "distinct (map pe_key (pendingEvents q_related))"
    by (simp add: q_related_simps pe_key_def createPendingEvent_def message_def redaction_def)
  have 3: "pe_needsSending (pendingEvents q_related ! 0)"
    by (simp add: q_related_simps pe_needsSending_def pe_needsUpload_def pe_needsEncryption_def
        createPendingEvent_def message_def)
  have 4: "hs_send env_ok (data (pendingEvents q_related ! 0)) = Inr ''$t1''"
    by (simp add: q_related_simps env_ok_def createPendingEvent_def message_def)
  have f: "fst (sendEvent_send env_ok 0 q_related) = None"
    using 3 4 by (simp add: sendEvent_send_def send_def sendEvent_persist_def Let_def mutate_def
        q_related_simps setStatus_def tryUpdateEventWithTxn_def store_exists_def store_update_def
        txn_complete_def env_ok_def pe_key_def data_key_def createPendingEvent_def message_def
        redaction_def setRelatedEventId_def)
  obtain q' where r: "sendEvent_send env_ok 0 q_related = (None, q')"
    using f by (cases "sendEvent_send env_ok 0 q_related") auto
  have A: "\<forall>j<length (pendingEvents q_related).
            map_of (storage q_related) (pe_key (pendingEvents q_related ! j)) \<noteq> None \<longrightarrow>
              (j = 0 \<longrightarrow>
                 map_option remoteId (map_of (storage q') (pe_key (pendingEvents q_related ! j))) = Some (Str ''$t1'')) \<and>
              (unresolved_for (Str (txnId (data (pendingEvents q_related ! 0)))) (Str ''$t1'') (pendingEvents q_related ! j) \<longrightarrow>
                 map_option relatedEventId (map_of (storage q') (pe_key (pendingEvents q_related ! j))) = Some (Str ''$t1''))"
    using sendEvent_send_atomic[OF 1 2 3 4, unfolded r prod.case option.case] by (rule conjunct1)
  have a0: "map_option remoteId (map_of (storage q') (''!r'', 1)) = Some (Str ''$t1'')"
    using A[rule_format, of 0]
    by (simp add: q_related_simps pe_key_def createPendingEvent_def message_def)
  have a1: "map_option relatedEventId (map_of (storage q') (''!r'', 2)) = Some (Str ''$t1'')"
    using A[rule_format, of 1]
    by (simp add: q_related_simps pe_key_def createPendingEvent_def message_def redaction_def unresolved_for_def)
  show ?thesis using 4 f r a0 a1 by simp
qed

subsection \<open>Queue positions\<close>

lemma max_list_None [simp]: "max_list xs = None \<longleftrightarrow> xs = []"
  by (cases xs) (auto split: option.splits)

lemma max_list_ge: "max_list xs = Some m \<Longrightarrow> x \<in> set xs \<Longrightarrow> x \<le> m"
  by (induction xs arbitrary: m) (auto split: option.splits)

lemma max_list_mono:
  "set xs \<subseteq> set ys \<Longrightarrow> max_list xs = Some m \<Longrightarrow> \<exists>m'. max_list ys = Some m' \<and> m \<le> m'"
proof -
  assume s: "set xs \<subseteq> set ys" and m: "max_list xs = Some m"
  have "m \<in> set xs" using m
    by (induction xs arbitrary: m) (auto split: option.splits simp: max_def)
  then have "m \<in> set ys" using s by auto
  then obtain m' where m': "max_list ys = Some m'" by (cases "max_list ys") auto
  then show ?thesis using max_list_ge[OF m' \<open>m \<in> set ys\<close>] by simp
qed

lemma room_indices_mem:
  "map_of txn (r, n) = Some d \<Longrightarrow> n \<in> set (room_indices r txn)"
proof -
  assume "map_of txn (r, n) = Some d"
  then have "((r, n), d) \<in> set txn" by (rule map_of_SomeD)
  then have "(r, n) \<in> set (filter (\<lambda>k. fst k = r) (map fst txn))" by force
  then show ?thesis unfolding room_indices_def by force
qed

lemma room_indices_update:
  "set (room_indices r txn) \<subseteq> set (room_indices r (AList.update k d txn))"
  by (induction txn) (auto simp: room_indices_def)

lemma createAndStoreEvent_queueIndex:
  "createAndStoreEvent e ty c rt re att t q = (Inr pe, q1) \<Longrightarrow> queueIndex (data pe) = next_queueIndex q"
  using createAndStoreEvent_Inr[of e ty c rt re att t q pe q1] by (simp add: next_queueIndex_def)

lemma next_queueIndex_greater:
  "n \<in> set (room_indices (queueRoomId q) (storage q)) \<Longrightarrow> n < next_queueIndex q"
  by (auto simp: next_queueIndex_def split: option.splits dest: max_list_ge)

lemma room_indices_key:
  "n \<in> set (room_indices r (AList.update (r, n) d txn))"
proof -
  have "map_of (AList.update (r, n) d txn) (r, n) = Some d" by (simp add: update_conv')
  then show ?thesis by (rule room_indices_mem)
qed

lemma sendLoop_iter_processed:
  "\<exists>ps. processed (trace (snd (sendLoop_iter e cur q))) = processed (trace q) @ ps \<and>
        sorted_wrt (<) ps \<and> (\<forall>c. cur = Some c \<longrightarrow> (\<forall>p\<in>set ps. c < p))"
proof (induction e cur q rule: sendLoop_iter.induct)
  case (1 e cur q)
  show ?case
  proof (cases "sa_next cur (pendingEvents q)")
    case None
    then show ?thesis by (subst sendLoop_iter.simps) simp
  next
    case (Some i)
    let ?c = "queueIndex (data (pendingEvents q ! i))"
    let ?q0 = "q\<lparr>trace := trace q @ [Process ?c]\<rparr>"
    obtain r q1 where b: "sendLoop_body e i ?q0 = (r, q1)" by (cases "sendLoop_body e i ?q0")
    have i: "i < length (pendingEvents ?q0)" using sa_next_Some[OF Some] by simp
    have t1: "processed (trace q1) = processed (trace q) @ [?c]"
      using sendLoop_body_trace[OF i, of e] b by auto
    have cur: "\<forall>c. cur = Some c \<longrightarrow> c < ?c"
      using Some by (auto simp: sa_next_def dest: findIndex_Some)
    show ?thesis
    proof (cases r)
      case None
      obtain ps where ps: "processed (trace (snd (sendLoop_iter e (Some ?c) q1))) = processed (trace q1) @ ps"
        "sorted_wrt (<) ps" "\<forall>p\<in>set ps. ?c < p"
        using "1.IH"[OF Some refl refl b[symmetric] None] by auto
      have r: "sendLoop_iter e cur q = sendLoop_iter e (Some ?c) q1"
        using Some b None by (subst sendLoop_iter.simps) simp
      have "processed (trace (snd (sendLoop_iter e cur q))) = processed (trace q) @ (?c # ps)"
        using r ps(1) t1 by simp
      moreover have "sorted_wrt (<) (?c # ps)" using ps by simp
      moreover have "\<forall>c. cur = Some c \<longrightarrow> (\<forall>p\<in>set (?c # ps). c < p)" using cur ps(3) by fastforce
      ultimately show ?thesis by blast
    next
      case (Some err)
      have r: "sendLoop_iter e cur q = (Some err, q1)"
        using \<open>sa_next cur (pendingEvents q) = Some i\<close> b Some by (subst sendLoop_iter.simps) simp
      have "processed (trace (snd (sendLoop_iter e cur q))) = processed (trace q) @ [?c]"
        using r t1 by simp
      moreover have "sorted_wrt (<) [?c]" by simp
      moreover have "\<forall>c. cur = Some c \<longrightarrow> (\<forall>p\<in>set [?c]. c < p)" using cur by simp
      ultimately show ?thesis by blast
    qed
  qed
qed

lemma sendLoop_processed:
  "\<exists>ps. processed (trace (sendLoop e q)) = processed (trace q) @ ps \<and> sorted_wrt (<) ps"
  using sendLoop_iter_processed[of e None "q\<lparr>isSending := True, trace := trace q @ [LoopStart]\<rparr>"]
  by (auto simp: sendLoop_def Let_def)


lemma findIndex_map: "findIndex P (map f xs) = findIndex (\<lambda>x. P (f x)) xs"
  by (induction xs) auto

lemma sorted_filter_greater:
  "sorted_wrt (<) (a # xs) \<Longrightarrow> filter (\<lambda>x. (a::int) < x) xs = xs"
  by (auto simp: filter_id_conv)

lemma sorted_filter_first:
  "sorted_wrt (<) xs \<Longrightarrow> findIndex (\<lambda>x. (c::int) < x) xs = Some i \<Longrightarrow>
   filter (\<lambda>x. c < x) xs = xs ! i # filter (\<lambda>x. xs ! i < x) xs"
proof (induction xs arbitrary: i)
  case Nil
  then show ?case by simp
next
  case (Cons a xs)
  show ?case
  proof (cases "c < a")
    case True
    then have i: "i = 0" using Cons.prems(2) by simp
    have "\<forall>x\<in>set xs. c < x" using Cons.prems(1) True by auto
    then have "filter (\<lambda>x. c < x) xs = xs" by (simp add: filter_id_conv)
    then show ?thesis using True i sorted_filter_greater[OF Cons.prems(1)] by simp
  next
    case False
    then obtain j where j: "findIndex (\<lambda>x. c < x) xs = Some j" "i = Suc j"
      using Cons.prems(2) by auto
    have s: "sorted_wrt (<) xs" using Cons.prems(1) by simp
    have "c < xs ! j" using findIndex_Some[OF j(1)] by simp
    then have "\<not> xs ! j < a" using False by simp
    then show ?thesis using Cons.IH[OF s j(1)] j(2) False by simp
  qed
qed

lemma remaining_next:
  assumes s: "sorted_wrt (<) (map (\<lambda>p. queueIndex (data p)) pes)"
    and n: "sa_next cur pes = Some i"
  shows "remaining cur (map (\<lambda>p. queueIndex (data p)) pes) =
         queueIndex (data (pes ! i)) # remaining (Some (queueIndex (data (pes ! i)))) (map (\<lambda>p. queueIndex (data p)) pes)"
proof (cases cur)
  case None
  then have i: "i = 0" and ne: "pes \<noteq> []" using n by (auto simp: sa_next_def split: if_splits)
  then obtain a as where pes: "pes = a # as" by (cases pes) auto
  show ?thesis using None i pes s sorted_filter_greater[of "queueIndex (data a)" "map (\<lambda>p. queueIndex (data p)) as"]
    by (simp add: remaining_def)
next
  case (Some c)
  then have f: "findIndex (\<lambda>x. c < x) (map (\<lambda>p. queueIndex (data p)) pes) = Some i"
    using n by (simp add: sa_next_def findIndex_map)
  have i: "i < length pes" using sa_next_Some[OF n] .
  show ?thesis using sorted_filter_first[OF s f] Some i by (simp add: remaining_def)
qed

lemma filter_sa_remove_eq:
  "idx < length xs \<Longrightarrow> \<not> P (xs ! idx) \<Longrightarrow> filter P (sa_remove idx xs) = filter P xs"
proof -
  assume i: "idx < length xs" and p: "\<not> P (xs ! idx)"
  have "xs = take idx xs @ xs ! idx # drop (Suc idx) xs" using i by (rule id_take_nth_drop)
  then have "filter P xs = filter P (take idx xs) @ filter P (xs ! idx # drop (Suc idx) xs)"
    by (metis filter_append)
  then show ?thesis using p by (simp add: sa_remove_def)
qed

lemma sorted_sa_remove: "sorted_wrt P xs \<Longrightarrow> sorted_wrt P (sa_remove idx xs)"
proof -
  assume s: "sorted_wrt P xs"
  have "sorted_wrt P (take idx xs @ drop idx xs)" using s by simp
  then have a: "sorted_wrt P (take idx xs)" "sorted_wrt P (drop idx xs)"
    "\<forall>x\<in>set (take idx xs). \<forall>y\<in>set (drop idx xs). P x y"
    unfolding sorted_wrt_append by auto
  have "sorted_wrt P (drop (Suc idx) xs)" using s by (metis sorted_wrt_drop)
  moreover have "set (drop (Suc idx) xs) \<subseteq> set (drop idx xs)" by (metis set_drop_subset_set_drop Suc_n_not_le_n nat_le_linear)
  ultimately show ?thesis using a unfolding sa_remove_def sorted_wrt_append by auto
qed

lemma removeEvent_qis:
  "map (\<lambda>p. queueIndex (data p)) (pendingEvents (snd (removeEvent e pe q))) = map (\<lambda>p. queueIndex (data p)) (pendingEvents q) \<or>
   (\<exists>idx<length (pendingEvents q). queueIndex (data (pendingEvents q ! idx)) = queueIndex (data pe) \<and>
      map (\<lambda>p. queueIndex (data p)) (pendingEvents (snd (removeEvent e pe q))) =
        sa_remove idx (map (\<lambda>p. queueIndex (data p)) (pendingEvents q)))"
proof (cases "indexOf (pendingEvents q) pe")
  case None
  then show ?thesis by (simp add: removeEvent_def)
next
  case (Some idx)
  then have "idx < length (pendingEvents q)" "queueIndex (data (pendingEvents q ! idx)) = queueIndex (data pe)"
    using findIndex_Some[of "\<lambda>p. same_object p pe" "pendingEvents q" idx]
    by (simp_all add: indexOf_def same_object_def)
  then show ?thesis using Some
    by (auto simp: removeEvent_def Let_def sa_remove_def take_map drop_map split: sum.splits)
qed

lemma sendLoop_body_remaining:
  assumes i: "i < length (pendingEvents q)"
    and s: "sorted_wrt (<) (map (\<lambda>p. queueIndex (data p)) (pendingEvents q))"
  shows "sorted_wrt (<) (map (\<lambda>p. queueIndex (data p)) (pendingEvents (snd (sendLoop_body e i q)))) \<and>
         remaining (Some (queueIndex (data (pendingEvents q ! i)))) (map (\<lambda>p. queueIndex (data p)) (pendingEvents (snd (sendLoop_body e i q))))
         = remaining (Some (queueIndex (data (pendingEvents q ! i)))) (map (\<lambda>p. queueIndex (data p)) (pendingEvents q))"
proof -
  let ?g = "\<lambda>p. queueIndex (data p)"
  obtain r q1 where se: "sendEvent e i q = (r, q1)" by (cases "sendEvent e i q")
  have m: "map ?g (pendingEvents q1) = map ?g (pendingEvents q)"
    using sendEvent_map[OF keeps_qi, of e i q] se by simp
  then have len: "length (pendingEvents q1) = length (pendingEvents q)" by (rule map_eq_imp_length_eq)
  have gi: "?g (pendingEvents q1 ! i) = ?g (pendingEvents q ! i)" using m i len by (metis nth_map)
  have "map ?g (pendingEvents (snd (sendLoop_body e i q))) = map ?g (pendingEvents q) \<or>
    (\<exists>idx<length (pendingEvents q). map ?g (pendingEvents q) ! idx = ?g (pendingEvents q ! i) \<and>
       map ?g (pendingEvents (snd (sendLoop_body e i q))) = sa_remove idx (map ?g (pendingEvents q)))"
  proof (cases r)
    case None
    then show ?thesis using se m by (simp add: sendLoop_body_def)
  next
    case (Some err)
    have mu: "map ?g (pendingEvents (mutate i (setStatus s) q')) = map ?g (pendingEvents q)"
      if "pendingEvents q' = pendingEvents q1" for s q'
      using mutate_map[of ?g "setStatus s" i q'] that m by (simp add: setStatus_def)
    consider (conn) "err = ConnectionError" | (perm) "err \<noteq> ConnectionError" "isPermanentError err"
      | (other) "err \<noteq> ConnectionError" "\<not> isPermanentError err" by blast
    then show ?thesis
    proof cases
      case conn
      then show ?thesis using se Some mu[of "q1\<lparr>offline := True\<rparr>" Waiting]
        by (simp add: sendLoop_body_def setWaiting_def)
    next
      case perm
      have "snd (sendLoop_body e i q) = snd (removeEvent e (pendingEvents q1 ! i) q1)"
        using se Some perm by (simp add: sendLoop_body_def abort_def)
      moreover have "?g (pendingEvents q1 ! k) = map ?g (pendingEvents q) ! k" if "k < length (pendingEvents q)" for k
        using m len that by (metis nth_map)
      ultimately show ?thesis
        using removeEvent_qis[of e "pendingEvents q1 ! i" q1] m gi len by auto
    next
      case other
      then show ?thesis using se Some mu[of q1 Error]
        by (simp add: sendLoop_body_def setError_def)
    qed
  qed
  then show ?thesis
  proof
    assume "map ?g (pendingEvents (snd (sendLoop_body e i q))) = map ?g (pendingEvents q)"
    then show ?thesis using s by simp
  next
    assume "\<exists>idx<length (pendingEvents q). map ?g (pendingEvents q) ! idx = ?g (pendingEvents q ! i) \<and>
       map ?g (pendingEvents (snd (sendLoop_body e i q))) = sa_remove idx (map ?g (pendingEvents q))"
    then obtain idx where idx: "idx < length (map ?g (pendingEvents q))"
      "map ?g (pendingEvents q) ! idx = ?g (pendingEvents q ! i)"
      "map ?g (pendingEvents (snd (sendLoop_body e i q))) = sa_remove idx (map ?g (pendingEvents q))"
      by auto
    have "filter (\<lambda>x. ?g (pendingEvents q ! i) < x) (sa_remove idx (map ?g (pendingEvents q)))
          = filter (\<lambda>x. ?g (pendingEvents q ! i) < x) (map ?g (pendingEvents q))"
      using idx(1) by (rule filter_sa_remove_eq) (simp add: idx(2))
    then show ?thesis using idx(3) sorted_sa_remove[OF s, of idx] by (simp add: remaining_def)
  qed
qed

lemma sendLoop_iter_complete:
  "sorted_wrt (<) (map (\<lambda>p. queueIndex (data p)) (pendingEvents q)) \<Longrightarrow>
   fst (sendLoop_iter e cur q) = None \<Longrightarrow>
   processed (trace (snd (sendLoop_iter e cur q))) =
     processed (trace q) @ remaining cur (map (\<lambda>p. queueIndex (data p)) (pendingEvents q))"
proof (induction e cur q rule: sendLoop_iter.induct)
  case (1 e cur q)
  let ?g = "\<lambda>p. queueIndex (data p)"
  show ?case
  proof (cases "sa_next cur (pendingEvents q)")
    case None
    then have "remaining cur (map ?g (pendingEvents q)) = []"
      by (auto simp: sa_next_def remaining_def findIndex_None filter_empty_conv split: option.splits if_splits)
    then show ?thesis using None by (subst sendLoop_iter.simps) simp
  next
    case (Some i)
    let ?c = "?g (pendingEvents q ! i)"
    let ?q0 = "q\<lparr>trace := trace q @ [Process ?c]\<rparr>"
    obtain r q1 where b: "sendLoop_body e i ?q0 = (r, q1)" by (cases "sendLoop_body e i ?q0")
    have i: "i < length (pendingEvents ?q0)" using sa_next_Some[OF Some] by simp
    have s0: "sorted_wrt (<) (map ?g (pendingEvents ?q0))" using "1.prems"(1) by simp
    have t1: "processed (trace q1) = processed (trace q) @ [?c]"
      using sendLoop_body_trace[OF i, of e] b by auto
    have bq: "sorted_wrt (<) (map ?g (pendingEvents q1))"
      "remaining (Some ?c) (map ?g (pendingEvents q1)) = remaining (Some ?c) (map ?g (pendingEvents q))"
      using sendLoop_body_remaining[OF i s0, of e] b by simp_all
    have unf: "sendLoop_iter e cur q = (case r of Some err \<Rightarrow> (Some err, q1) | None \<Rightarrow> sendLoop_iter e (Some ?c) q1)"
      using Some b by (subst sendLoop_iter.simps) (simp split: option.splits)
    show ?thesis
    proof (cases r)
      case None
      have f: "fst (sendLoop_iter e (Some ?c) q1) = None" using "1.prems"(2) unf None by simp
      have "processed (trace (snd (sendLoop_iter e (Some ?c) q1))) =
            processed (trace q1) @ remaining (Some ?c) (map ?g (pendingEvents q1))"
        using "1.IH"[OF Some refl refl b[symmetric] None bq(1) f] .
      then show ?thesis
        using unf None t1 bq(2) remaining_next[OF "1.prems"(1) Some] by simp
    next
      case (Some err)
      then show ?thesis using "1.prems"(2) unf by simp
    qed
  qed
qed

text \<open>
  C2, as amended: an enqueue gives the new event the greatest queue position the store
  holds for the room plus one, and one when it holds none. A later enqueue gives a
  greater position as long as no queue position of the room has left the store in
  between. A send loop takes up the events in strictly ascending queue position, and
  when no error ends it, it takes up every event of the sorted collection.
\<close>

theorem enqueue_queueIndex_order:
  assumes "createAndStoreEvent e ty c rt re att t q = (Inr pe, q1)"
    and "createAndStoreEvent e' ty' c' rt' re' att' t' q2 = (Inr pe', q3)"
    and "queueRoomId q2 = queueRoomId q"
    and "set (room_indices (queueRoomId q) (storage q1)) \<subseteq> set (room_indices (queueRoomId q) (storage q2))"
    and "sorted_wrt (<) (map (\<lambda>p. queueIndex (data p)) (pendingEvents ql))"
  shows "queueIndex (data pe) =
           (case max_list (room_indices (queueRoomId q) (storage q)) of None \<Rightarrow> 1 | Some m \<Rightarrow> m + 1) \<and>
         queueIndex (data pe) < queueIndex (data pe') \<and>
         (\<exists>ps. processed (trace (sendLoop el ql)) = processed (trace ql) @ ps \<and> sorted_wrt (<) ps \<and>
            (fst (sendLoop_iter el None (ql\<lparr>isSending := True, trace := trace ql @ [LoopStart]\<rparr>)) = None
               \<longrightarrow> ps = map (\<lambda>p. queueIndex (data p)) (pendingEvents ql)))"
proof -
  have a: "queueIndex (data pe) = next_queueIndex q" using assms(1) by (rule createAndStoreEvent_queueIndex)
  have q1: "q1 = q\<lparr>storage := AList.update (pe_key pe) (data pe) (storage q), nextOid := Suc (nextOid q)\<rparr>"
    and rm: "roomId (data pe) = queueRoomId q"
    using createAndStoreEvent_Inr[OF assms(1)] by simp_all
  have "queueIndex (data pe) \<in> set (room_indices (queueRoomId q) (storage q1))"
    unfolding q1 using room_indices_key[of "queueIndex (data pe)" "queueRoomId q"] rm
    by (simp add: pe_key_def)
  then have "queueIndex (data pe) \<in> set (room_indices (queueRoomId q2) (storage q2))"
    using assms(3,4) by auto
  then have "queueIndex (data pe) < next_queueIndex q2" by (rule next_queueIndex_greater)
  moreover have "queueIndex (data pe') = next_queueIndex q2"
    using assms(2) by (rule createAndStoreEvent_queueIndex)
  ultimately have b: "queueIndex (data pe) < queueIndex (data pe')" by simp
  let ?q0 = "ql\<lparr>isSending := True, trace := trace ql @ [LoopStart]\<rparr>"
  obtain ps where ps: "processed (trace (sendLoop el ql)) = processed (trace ql) @ ps" "sorted_wrt (<) ps"
    using sendLoop_processed[of el ql] by blast
  have "ps = map (\<lambda>p. queueIndex (data p)) (pendingEvents ql)"
    if f: "fst (sendLoop_iter el None ?q0) = None"
  proof -
    have s0: "sorted_wrt (<) (map (\<lambda>p. queueIndex (data p)) (pendingEvents ?q0))" using assms(5) by simp
    have "processed (trace (sendLoop el ql)) = processed (trace ql) @ map (\<lambda>p. queueIndex (data p)) (pendingEvents ql)"
      using sendLoop_iter_complete[OF s0 f] by (simp add: sendLoop_def Let_def remaining_def)
    then show ?thesis using ps(1) by simp
  qed
  then show ?thesis using a b ps by (auto simp: next_queueIndex_def)
qed

theorem enqueue_queueIndex_order_witness:
  "createAndStoreEvent env_ok ''m.room.message'' ''hi'' Null Null False ''t1'' q_offline =
     (Inr (createPendingEvent 0 (message 1 ''t1'')), q_offline\<lparr>storage := [((''!r'', 1), message 1 ''t1'')], nextOid := 1\<rparr>) \<and>
   createAndStoreEvent env_ok ''m.room.message'' ''hi'' Null Null False ''t2''
       (q_offline\<lparr>storage := [((''!r'', 1), message 1 ''t1'')], nextOid := 1\<rparr>) =
     (Inr (createPendingEvent 1 (message 2 ''t2'')),
      q_offline\<lparr>storage := [((''!r'', 1), message 1 ''t1''), ((''!r'', 2), message 2 ''t2'')], nextOid := 2\<rparr>) \<and>
   queueIndex (data (createPendingEvent 0 (message 1 ''t1''))) < queueIndex (data (createPendingEvent 1 (message 2 ''t2''))) \<and>
   processed (trace (sendLoop env_ok q_related)) = [1, 2]"
proof -
  let ?qa = "q_offline\<lparr>storage := [((''!r'', 1), message 1 ''t1'')], nextOid := 1\<rparr>"
  have 1: "createAndStoreEvent env_ok ''m.room.message'' ''hi'' Null Null False ''t1'' q_offline =
     (Inr (createPendingEvent 0 (message 1 ''t1'')), ?qa)"
    by (simp add: createAndStoreEvent_def q_offline_def newSendQueue_def store_getMaxQueueIndex_def
        room_indices_def store_add_def txn_complete_def env_ok_def message_def data_key_def
        createPendingEvent_def REDACTION_TYPE_def setManyUnsorted_def)
  have 2: "createAndStoreEvent env_ok ''m.room.message'' ''hi'' Null Null False ''t2'' ?qa =
     (Inr (createPendingEvent 1 (message 2 ''t2'')),
      q_offline\<lparr>storage := [((''!r'', 1), message 1 ''t1''), ((''!r'', 2), message 2 ''t2'')], nextOid := 2\<rparr>)"
    by (simp add: createAndStoreEvent_def q_offline_def newSendQueue_def store_getMaxQueueIndex_def
        room_indices_def store_add_def txn_complete_def env_ok_def message_def data_key_def
        createPendingEvent_def REDACTION_TYPE_def setManyUnsorted_def)
  have 3: "queueRoomId ?qa = queueRoomId q_offline" by simp
  have 4: "set (room_indices (queueRoomId q_offline) (storage ?qa)) \<subseteq> set (room_indices (queueRoomId q_offline) (storage ?qa))"
    by simp
  have 5: "sorted_wrt (<) (map (\<lambda>p. queueIndex (data p)) (pendingEvents q_related))"
    by (simp add: q_related_simps createPendingEvent_def message_def redaction_def)
  have 6: "fst (sendLoop_iter env_ok None (q_related\<lparr>isSending := True, trace := trace q_related @ [LoopStart]\<rparr>)) = None"
    by code_simp
  have 7: "map (\<lambda>p. queueIndex (data p)) (pendingEvents q_related) = [1, 2]"
    by (simp add: q_related_simps createPendingEvent_def message_def redaction_def)
  have "queueIndex (data (createPendingEvent 0 (message 1 ''t1''))) < queueIndex (data (createPendingEvent 1 (message 2 ''t2'')))
      \<and> processed (trace (sendLoop env_ok q_related)) = [1, 2]"
    using enqueue_queueIndex_order[OF 1 2 3 4 5, of env_ok] 6 7 by (auto simp: q_related_simps)
  then show ?thesis using 1 2 by simp
qed

text \<open>
  C2 as stated fails: the positions of a sequence of enqueues are not always strictly
  increasing. The server rejects the first event with status 404, the loop that the
  first enqueue started aborts it, and the second enqueue gives position 1 again.
\<close>

theorem enqueue_queueIndex_order_counterexample:
  "trace (snd (enqueueEvent env_404 ''m.room.message'' ''ho'' False ''t2''
             (snd (enqueueEvent env_404 ''m.room.message'' ''hi'' False ''t1'' (newSendQueue ''!r'' [] [])))))
   = [LoopStart, Process 1, Transmit ''t1'', LoopStart, Process 1, Transmit ''t2'']"
  by code_simp

lemma in_set_sa_remove: "x \<in> set (sa_remove i xs) \<Longrightarrow> x \<in> set xs"
  by (auto simp: sa_remove_def dest: in_set_takeD in_set_dropD)

text \<open>
  C8, as amended: the queue position given to a new pending event is greater than every
  queue position the store holds for the room at that moment, so its key is new to the
  store; storing it changes no other record and no event of the collection, and removing
  an event changes no other record and no remaining event: nothing is renumbered.
\<close>

theorem queueIndex_above_stored:
  assumes "createAndStoreEvent e ty c rt re att t q = (Inr pe, q1)"
  shows "(\<forall>n\<in>set (room_indices (queueRoomId q) (storage q)). n < queueIndex (data pe)) \<and>
         map_of (storage q) (pe_key pe) = None \<and>
         (\<forall>k. k \<noteq> pe_key pe \<longrightarrow> map_of (storage q1) k = map_of (storage q) k) \<and>
         pendingEvents q1 = pendingEvents q \<and>
         (\<forall>k. k \<noteq> pe_key x \<longrightarrow> map_of (storage (snd (removeEvent e' x q'))) k = map_of (storage q') k) \<and>
         (\<forall>p\<in>set (pendingEvents (snd (removeEvent e' x q'))). p \<in> set (pendingEvents q'))"
proof -
  have a: "queueIndex (data pe) = next_queueIndex q" using assms by (rule createAndStoreEvent_queueIndex)
  have q1: "q1 = q\<lparr>storage := AList.update (pe_key pe) (data pe) (storage q), nextOid := Suc (nextOid q)\<rparr>"
    and rm: "roomId (data pe) = queueRoomId q"
    using createAndStoreEvent_Inr[OF assms] by simp_all
  have gt: "\<forall>n\<in>set (room_indices (queueRoomId q) (storage q)). n < queueIndex (data pe)"
    using a next_queueIndex_greater by simp
  have new: "map_of (storage q) (pe_key pe) = None"
  proof (rule ccontr)
    assume "map_of (storage q) (pe_key pe) \<noteq> None"
    then obtain d where "map_of (storage q) (queueRoomId q, queueIndex (data pe)) = Some d"
      using rm by (auto simp: pe_key_def)
    then have "queueIndex (data pe) \<in> set (room_indices (queueRoomId q) (storage q))"
      by (rule room_indices_mem)
    then show False using gt by auto
  qed
  have rem: "map_of (storage (snd (removeEvent e' x q'))) k = map_of (storage q') k" if "k \<noteq> pe_key x" for k
    using that
    by (auto simp: removeEvent_def Let_def store_remove_def txn_complete_def delete_conv'
        split: option.splits sum.splits if_splits)
  have mem: "p \<in> set (pendingEvents q')" if "p \<in> set (pendingEvents (snd (removeEvent e' x q')))" for p
    using that
    by (auto simp: removeEvent_def Let_def split: option.splits sum.splits dest: in_set_sa_remove)
  show ?thesis using gt new rem mem unfolding q1 by (simp add: update_conv' del: split_paired_All)
qed

theorem queueIndex_above_stored_witness:
  "createAndStoreEvent env_ok ''m.room.message'' ''hi'' Null Null False ''t2'' q_waiting =
     (Inr (createPendingEvent 1 (message 2 ''t2'')),
      q_waiting\<lparr>storage := [((''!r'', 1), message 1 ''t1''), ((''!r'', 2), message 2 ''t2'')], nextOid := 2\<rparr>) \<and>
   1 < queueIndex (data (createPendingEvent 1 (message 2 ''t2'')))"
proof -
  have 1: "createAndStoreEvent env_ok ''m.room.message'' ''hi'' Null Null False ''t2'' q_waiting =
     (Inr (createPendingEvent 1 (message 2 ''t2'')),
      q_waiting\<lparr>storage := [((''!r'', 1), message 1 ''t1''), ((''!r'', 2), message 2 ''t2'')], nextOid := 2\<rparr>)"
    by (simp add: createAndStoreEvent_def q_waiting_def newSendQueue_def store_getMaxQueueIndex_def
        room_indices_def store_add_def txn_complete_def env_ok_def message_def data_key_def
        createPendingEvent_def REDACTION_TYPE_def setManyUnsorted_def)
  have "1 \<in> set (room_indices (queueRoomId q_waiting) (storage q_waiting))"
    by (simp add: q_waiting_def newSendQueue_def room_indices_def)
  then have "1 < queueIndex (data (createPendingEvent 1 (message 2 ''t2'')))"
    using queueIndex_above_stored[OF 1] by blast
  then show ?thesis using 1 by simp
qed

text \<open>
  C8 as stated fails: a queue position is given again after a removal. The first message
  gets position 1; redacting it before it is sent aborts and removes it; the next
  message gets position 1 again.
\<close>

theorem queueIndex_reused_counterexample:
  "storage (snd (enqueueEvent env_ok ''m.room.message'' ''hi'' False ''t1'' q_offline))
     = [((''!r'', 1), message 1 ''t1'')] \<and>
   storage (snd (enqueueRedaction env_ok ''t1'' ''spam'' ''t2''
      (snd (enqueueEvent env_ok ''m.room.message'' ''hi'' False ''t1'' q_offline)))) = [] \<and>
   storage (snd (enqueueEvent env_ok ''m.room.message'' ''hi'' False ''t3''
      (snd (enqueueRedaction env_ok ''t1'' ''spam'' ''t2''
         (snd (enqueueEvent env_ok ''m.room.message'' ''hi'' False ''t1'' q_offline))))))
     = [((''!r'', 1), message 1 ''t3'')]"
  by code_simp

subsection \<open>Failures that are not connectivity failures\<close>




lemma distinct_map_remove1:
  "distinct (map f xs) \<Longrightarrow> x \<in> set xs \<Longrightarrow> f x \<notin> set (map f (remove1 x xs))"
proof (induction xs)
  case Nil
  then show ?case by simp
next
  case (Cons a xs)
  show ?case
  proof (cases "a = x")
    case True
    then show ?thesis using Cons.prems by auto
  next
    case False
    then have "f a \<noteq> f x" using Cons.prems by force
    then show ?thesis using Cons False by auto
  qed
qed




subsection \<open>Reconciling remote echoes\<close>

lemma resolve_absent:
  "resolveRemoteIdInPendingRelations e t rid ps txn = (r, ps', txn') \<Longrightarrow>
   map_of txn k = None \<Longrightarrow> map_of txn' k = None"
proof (induction ps arbitrary: txn r ps' txn')
  case Nil
  then show ?case by simp
next
  case (Cons p ps)
  show ?case
  proof (cases "relatedTxnId (data p) = t \<and> relatedEventId (data p) \<noteq> rid")
    case False
    then obtain ps1 where "resolveRemoteIdInPendingRelations e t rid ps txn = (r, ps1, txn')"
      using Cons.prems(1) by (auto split: prod.splits)
    then show ?thesis using Cons.IH Cons.prems(2) by blast
  next
    case True
    show ?thesis
    proof (cases "tryUpdateEventWithTxn e (setRelatedEventId rid p) txn")
      case (Inl err)
      then show ?thesis using Cons.prems True by (simp add: Let_def)
    next
      case (Inr txn1)
      then have n1: "map_of txn1 k = None"
        using tryUpdateEventWithTxn_map_of[OF Inr, of k] Cons.prems(2) by simp
      obtain ps1 where "resolveRemoteIdInPendingRelations e t rid ps txn1 = (r, ps1, txn')"
        using Cons.prems(1) True Inr by (auto simp: Let_def split: prod.splits)
      then show ?thesis using Cons.IH n1 by blast
    qed
  qed
qed

lemma removeRemoteEchos_seq:
  "removeRemoteEchos e (ev # evs) txn removed q =
      (case removeRemoteEchos e [ev] txn removed q of
         (None, r, t, q') \<Rightarrow> removeRemoteEchos e evs t r q'
       | (Some err, r, t, q') \<Rightarrow> (Some err, r, t, q'))"
  by (simp add: Let_def split: option.splits sum.splits prod.splits)

lemma matchingIndex_Some:
  "matchingIndex ev pes = Some i \<Longrightarrow>
   i < length pes \<and>
   (truthy (transaction_id ev) \<longrightarrow> Str (txnId (data (pes ! i))) = transaction_id ev) \<and>
   (\<not> truthy (transaction_id ev) \<longrightarrow> remoteId (data (pes ! i)) = Str (event_id ev))"
  by (auto simp: matchingIndex_def split: if_splits dest: findIndex_Some)

lemma findIndex_filter_distinct:
  "distinct (map g xs) \<Longrightarrow> (\<And>p. P p \<Longrightarrow> g p = c) \<Longrightarrow> findIndex P xs = Some i \<Longrightarrow>
   sa_remove i xs = filter (\<lambda>p. \<not> P p) xs"
proof (induction xs arbitrary: i)
  case Nil
  then show ?case by simp
next
  case (Cons a xs)
  show ?case
  proof (cases "P a")
    case True
    then have "g a = c" using Cons.prems(2) by blast
    then have "\<forall>x\<in>set xs. g x \<noteq> c" using Cons.prems(1) by (metis distinct.simps(2) imageI list.simps(9) set_map)
    then have "\<forall>x\<in>set xs. \<not> P x" using Cons.prems(2) by blast
    then have "filter (\<lambda>p. \<not> P p) xs = xs" by (simp add: filter_id_conv)
    then show ?thesis using True Cons.prems(3) by (simp add: sa_remove_def)
  next
    case False
    then obtain j where j: "findIndex P xs = Some j" "i = Suc j"
      using Cons.prems(3) by auto
    have d: "distinct (map g xs)" using Cons.prems(1) by simp
    have "sa_remove j xs = filter (\<lambda>p. \<not> P p) xs" using Cons.IH[OF d Cons.prems(2) j(1)] .
    then show ?thesis using False j(2) by (simp add: sa_remove_def)
  qed
qed

lemma emitRemovals_filter:
  "distinct (map (\<lambda>p. queueIndex (data p)) (pendingEvents q)) \<Longrightarrow>
   pendingEvents (emitRemovals rs q) =
     filter (\<lambda>p. \<not> (\<exists>r\<in>set rs. same_object p r)) (pendingEvents q)"
proof (induction rs arbitrary: q)
  case Nil
  then show ?case by simp
next
  case (Cons pe rs)
  let ?g = "\<lambda>p. queueIndex (data p)"
  have g: "same_object p pe \<Longrightarrow> ?g p = ?g pe" for p by (simp add: same_object_def)
  show ?case
  proof (cases "indexOf (pendingEvents q) pe")
    case None
    then have "\<forall>x\<in>set (pendingEvents q). \<not> same_object x pe"
      by (simp add: indexOf_def findIndex_None)
    then have "filter (\<lambda>p. \<not> (\<exists>r\<in>set (pe # rs). same_object p r)) (pendingEvents q)
             = filter (\<lambda>p. \<not> (\<exists>r\<in>set rs. same_object p r)) (pendingEvents q)"
      by (intro filter_cong) auto
    then show ?thesis using None Cons.IH[OF Cons.prems] by simp
  next
    case (Some idx)
    then have i: "findIndex (\<lambda>p. same_object p pe) (pendingEvents q) = Some idx"
      by (simp add: indexOf_def)
    have r: "sa_remove idx (pendingEvents q) = filter (\<lambda>p. \<not> same_object p pe) (pendingEvents q)"
      by (rule findIndex_filter_distinct[where g = ?g and P = "\<lambda>p. same_object p pe", OF Cons.prems g i])
    let ?q' = "q\<lparr>pendingEvents := sa_remove idx (pendingEvents q)\<rparr>"
    have d': "distinct (map ?g (pendingEvents ?q'))" using Cons.prems r by (simp add: distinct_map_filter)
    have "pendingEvents (emitRemovals rs ?q') = filter (\<lambda>p. \<not> (\<exists>r\<in>set rs. same_object p r)) (pendingEvents ?q')"
      using Cons.IH[OF d'] .
    also have "\<dots> = filter (\<lambda>p. \<not> (\<exists>r\<in>set (pe # rs). same_object p r)) (pendingEvents q)"
      using r by (auto intro: filter_cong)
    finally show ?thesis using Some by simp
  qed
qed

lemma find_distinct_mem:
  "distinct (map f xs) \<Longrightarrow> p \<in> set xs \<Longrightarrow> P p \<Longrightarrow>
   find (\<lambda>x. P x \<and> f x = f p) xs = Some p"
proof -
  assume d: "distinct (map f xs)" and m: "p \<in> set xs" and P: "P p"
  obtain j where j: "j < length xs" "xs ! j = p" using m by (auto simp: in_set_conv_nth)
  show ?thesis using find_distinct_key[OF d j(1), of P] j(2) P by simp
qed

lemma removeRemoteEchos_single:
  assumes d: "distinct (map pe_key (pendingEvents q))"
    and m: "matchingIndex ev (pendingEvents q) = Some i"
    and r: "removeRemoteEchos e [ev] txn removed q = (None, rs, t, q')"
  shows "rs = removed @ [pendingEvents q ! i]"
    and "map_of t (pe_key (pendingEvents q ! i)) = None"
    and "pendingEvents q' =
           map (\<lambda>p. if unresolved_for (transaction_id ev) (Str (event_id ev)) p
                     then setRelatedEventId (Str (event_id ev)) p else p) (pendingEvents q)"
    and "\<And>p. p \<in> set (pendingEvents q) \<Longrightarrow> unresolved_for (transaction_id ev) (Str (event_id ev)) p \<Longrightarrow>
           pe_key p \<noteq> pe_key (pendingEvents q ! i) \<Longrightarrow> map_of txn (pe_key p) \<noteq> None \<Longrightarrow>
           map_option relatedEventId (map_of t (pe_key p)) = Some (Str (event_id ev))"
proof -
  let ?pe = "pendingEvents q ! i"
  let ?T = "transaction_id ev"
  let ?R = "Str (event_id ev)"
  obtain txn1 where rm: "store_remove e txn (pe_key ?pe) = Inr txn1"
    using r m by (cases "store_remove e txn (pe_key ?pe)") (simp_all add: Let_def)
  then have t1: "txn1 = AList.delete (pe_key ?pe) txn" by (simp add: store_remove_def split: if_splits)
  obtain r2 ps' txn2 where rr: "resolveRemoteIdInPendingRelations e ?T ?R (pendingEvents q) txn1 = (r2, ps', txn2)"
    by (metis prod_cases3)
  have r2: "r2 = None" using r m rm rr by (cases r2) (simp_all add: Let_def)
  have res: "rs = removed @ [?pe]" "t = txn2" "q' = q\<lparr>pendingEvents := ps'\<rparr>"
    using r m rm rr r2 by (simp_all add: Let_def)
  note rn = rr[unfolded r2]
  show "rs = removed @ [?pe]" by (rule res(1))
  have "map_of txn1 (pe_key ?pe) = None" unfolding t1 by (simp add: delete_conv')
  then show "map_of t (pe_key ?pe) = None" using resolve_absent[OF rn] res(2) by simp
  show "pendingEvents q' = map (\<lambda>p. if unresolved_for ?T ?R p then setRelatedEventId ?R p else p) (pendingEvents q)"
    using resolve_memory[OF rn] res(3) by simp
  fix p
  assume p: "p \<in> set (pendingEvents q)" "unresolved_for ?T ?R p"
    "pe_key p \<noteq> pe_key ?pe" "map_of txn (pe_key p) \<noteq> None"
  have f: "find (\<lambda>x. unresolved_for ?T ?R x \<and> pe_key x = pe_key p) (pendingEvents q) = Some p"
    using find_distinct_mem[OF d p(1), of "unresolved_for ?T ?R"] p(2) by simp
  have "map_of txn1 (pe_key p) = map_of txn (pe_key p)" unfolding t1 using p(3) by (simp add: delete_conv')
  then have "map_of txn2 (pe_key p) = Some (data (setRelatedEventId ?R p))"
    using resolve_store[OF rn d, of "pe_key p"] f p(4) by simp
  then show "map_option relatedEventId (map_of t (pe_key p)) = Some ?R"
    using res(2) by (simp add: setRelatedEventId_def)
qed

text \<open>
  C5, as amended: \<open>removeRemoteEchos\<close> handles the synced events one after the other.
  An event is matched with the first pending event that has its transaction id when it
  carries one, and with the first that has its event id as remote id otherwise; an event
  that matches none changes nothing. The record of a matched pending event is removed in
  the transaction of the caller and is not written again, and the event is returned in
  the list \<open>removed\<close>; it stays in the collection. When the synced event carries a
  transaction id, the pending events that relate to it get its event id as related
  event id, in the collection and, in the same transaction, in their records.
  \<open>emitRemovals\<close> with the returned list is what takes the events out of the
  collection: of a collection with distinct queue positions it removes the objects of
  the list and no other event, whatever queue position that event has.
\<close>

theorem removeRemoteEchos_store_then_emit:
  assumes d: "distinct (map pe_key (pendingEvents q))"
    and dq: "distinct (map (\<lambda>p. queueIndex (data p)) (pendingEvents q2))"
  shows
   "removeRemoteEchos e (ev # evs) txn removed q =
      (case removeRemoteEchos e [ev] txn removed q of
         (None, r, t, q') \<Rightarrow> removeRemoteEchos e evs t r q'
       | (Some err, r, t, q') \<Rightarrow> (Some err, r, t, q')) \<and>
    (case matchingIndex ev (pendingEvents q) of
       None \<Rightarrow> removeRemoteEchos e [ev] txn removed q = (None, removed, txn, q)
     | Some i \<Rightarrow>
         (truthy (transaction_id ev) \<longrightarrow> Str (txnId (data (pendingEvents q ! i))) = transaction_id ev) \<and>
         (\<not> truthy (transaction_id ev) \<longrightarrow> remoteId (data (pendingEvents q ! i)) = Str (event_id ev)) \<and>
         (case removeRemoteEchos e [ev] txn removed q of
            (Some err, r, t, q') \<Rightarrow> True
          | (None, r, t, q') \<Rightarrow>
              r = removed @ [pendingEvents q ! i] \<and>
              map_of t (pe_key (pendingEvents q ! i)) = None \<and>
              map pe_key (pendingEvents q') = map pe_key (pendingEvents q) \<and>
              (truthy (transaction_id ev) \<longrightarrow>
                 (\<forall>p\<in>set (pendingEvents q').
                     relatedTxnId (data p) = transaction_id ev \<longrightarrow> relatedEventId (data p) = Str (event_id ev)) \<and>
                 (\<forall>p\<in>set (pendingEvents q).
                     unresolved_for (transaction_id ev) (Str (event_id ev)) p \<and>
                     pe_key p \<noteq> pe_key (pendingEvents q ! i) \<and> map_of txn (pe_key p) \<noteq> None \<longrightarrow>
                     map_option relatedEventId (map_of t (pe_key p)) = Some (Str (event_id ev)))))) \<and>
    pendingEvents (emitRemovals rs q2) =
      filter (\<lambda>p. \<not> (\<exists>r\<in>set rs. same_object p r)) (pendingEvents q2)"
proof -
  have B: "case matchingIndex ev (pendingEvents q) of
       None \<Rightarrow> removeRemoteEchos e [ev] txn removed q = (None, removed, txn, q)
     | Some i \<Rightarrow>
         (truthy (transaction_id ev) \<longrightarrow> Str (txnId (data (pendingEvents q ! i))) = transaction_id ev) \<and>
         (\<not> truthy (transaction_id ev) \<longrightarrow> remoteId (data (pendingEvents q ! i)) = Str (event_id ev)) \<and>
         (case removeRemoteEchos e [ev] txn removed q of
            (Some err, r, t, q') \<Rightarrow> True
          | (None, r, t, q') \<Rightarrow>
              r = removed @ [pendingEvents q ! i] \<and>
              map_of t (pe_key (pendingEvents q ! i)) = None \<and>
              map pe_key (pendingEvents q') = map pe_key (pendingEvents q) \<and>
              (truthy (transaction_id ev) \<longrightarrow>
                 (\<forall>p\<in>set (pendingEvents q').
                     relatedTxnId (data p) = transaction_id ev \<longrightarrow> relatedEventId (data p) = Str (event_id ev)) \<and>
                 (\<forall>p\<in>set (pendingEvents q).
                     unresolved_for (transaction_id ev) (Str (event_id ev)) p \<and>
                     pe_key p \<noteq> pe_key (pendingEvents q ! i) \<and> map_of txn (pe_key p) \<noteq> None \<longrightarrow>
                     map_option relatedEventId (map_of t (pe_key p)) = Some (Str (event_id ev)))))"
  proof (cases "matchingIndex ev (pendingEvents q)")
    case None
    then show ?thesis by simp
  next
    case (Some i)
    obtain r0 rs0 t q' where res: "removeRemoteEchos e [ev] txn removed q = (r0, rs0, t, q')"
      by (metis prod_cases4)
    show ?thesis
    proof (cases r0)
      case (Some err)
      then show ?thesis using \<open>matchingIndex ev (pendingEvents q) = Some i\<close> res matchingIndex_Some[of ev "pendingEvents q" i]
        by simp
    next
      case None
      note S = removeRemoteEchos_single[OF d Some res[unfolded None]]
      have k: "map pe_key (pendingEvents q') = map pe_key (pendingEvents q)"
        unfolding S(3) by (simp add: comp_def)
      have mem: "relatedEventId (data p) = Str (event_id ev)"
        if "p \<in> set (pendingEvents q')" "relatedTxnId (data p) = transaction_id ev" for p
        using that unfolding S(3) by (auto simp: unresolved_for_def setRelatedEventId_def split: if_splits)
      show ?thesis
        using Some res None matchingIndex_Some[of ev "pendingEvents q" i] S(1,2) k mem S(4)
        by simp
    qed
  qed
  show ?thesis using removeRemoteEchos_seq[of e ev evs txn removed q] B emitRemovals_filter[OF dq, of rs]
    by blast
qed

theorem removeRemoteEchos_store_then_emit_witness:
  "matchingIndex echo_t1 (pendingEvents q_related) = Some 0 \<and>
   fst (removeRemoteEchos env_ok [echo_t1] (storage q_related) [] q_related) = None \<and>
   map_of (fst (snd (snd (removeRemoteEchos env_ok [echo_t1] (storage q_related) [] q_related)))) (''!r'', 1) = None \<and>
   map_option relatedEventId
     (map_of (fst (snd (snd (removeRemoteEchos env_ok [echo_t1] (storage q_related) [] q_related)))) (''!r'', 2))
     = Some (Str ''$t1'') \<and>
   pendingEvents (emitRemovals [createPendingEvent 0 (message 1 ''t1'')] q_related)
     = [createPendingEvent 1 (redaction 2 ''t2'' ''t1'')]"
proof -
  let ?X = "removeRemoteEchos env_ok [echo_t1] (storage q_related) [] q_related"
  have d: "distinct (map pe_key (pendingEvents q_related))"
    by (simp add: q_related_simps pe_key_def createPendingEvent_def message_def redaction_def)
  have dq: "distinct (map (\<lambda>p. queueIndex (data p)) (pendingEvents q_related))"
    by (simp add: q_related_simps createPendingEvent_def message_def redaction_def)
  have m: "matchingIndex echo_t1 (pendingEvents q_related) = Some 0"
    by (simp add: matchingIndex_def echo_t1_def q_related_simps createPendingEvent_def message_def)
  have f: "fst ?X = None" by code_simp
  obtain rs t q' where res: "?X = (None, rs, t, q')" using f by (cases ?X) auto
  have tr: "truthy (transaction_id echo_t1)" by (simp add: echo_t1_def)
  note T = removeRemoteEchos_store_then_emit[OF d dq, of env_ok echo_t1 "[]" "storage q_related" "[]"
      "[createPendingEvent 0 (message 1 ''t1'')]", unfolded m res option.case prod.case]
  have a: "map_of t (pe_key (pendingEvents q_related ! 0)) = None" using T by blast
  have b: "\<forall>p\<in>set (pendingEvents q_related).
             unresolved_for (transaction_id echo_t1) (Str (event_id echo_t1)) p \<and>
             pe_key p \<noteq> pe_key (pendingEvents q_related ! 0) \<and> map_of (storage q_related) (pe_key p) \<noteq> None \<longrightarrow>
             map_option relatedEventId (map_of t (pe_key p)) = Some (Str (event_id echo_t1))"
    using T tr by blast
  have b2: "map_option relatedEventId (map_of t (''!r'', 2)) = Some (Str ''$t1'')"
    using b[rule_format, of "createPendingEvent 1 (redaction 2 ''t2'' ''t1'')"]
    by (simp add: q_related_simps unresolved_for_def echo_t1_def pe_key_def createPendingEvent_def
        message_def redaction_def)
  have a2: "map_of t (''!r'', 1) = None"
    using a by (simp add: q_related_simps pe_key_def createPendingEvent_def message_def)
  have c: "pendingEvents (emitRemovals [createPendingEvent 0 (message 1 ''t1'')] q_related)
     = [createPendingEvent 1 (redaction 2 ''t2'' ''t1'')]"
    using emitRemovals_filter[OF dq, of "[createPendingEvent 0 (message 1 ''t1'')]"]
    by (simp add: q_related_simps same_object_def createPendingEvent_def message_def redaction_def)
  show ?thesis using m f res a2 b2 c by simp
qed

text \<open>
  C5 as stated fails: \<open>removeRemoteEchos\<close> does not remove the matched event from the
  collection. After the echo of \<open>t1\<close> the transaction holds the record of the
  redaction only, the collection still holds both events, and the matched event is in
  the returned list.
\<close>

theorem removeRemoteEchos_keeps_collection_counterexample:
  "map fst (fst (snd (snd (removeRemoteEchos env_ok [echo_t1] (storage q_related) [] q_related))))
     = [(''!r'', 2)] \<and>
   map pe_key (pendingEvents (snd (snd (snd (removeRemoteEchos env_ok [echo_t1] (storage q_related) [] q_related)))))
     = [(''!r'', 1), (''!r'', 2)] \<and>
   map pe_key (fst (snd (removeRemoteEchos env_ok [echo_t1] (storage q_related) [] q_related)))
     = [(''!r'', 1)]"
  by code_simp

subsection \<open>Connection errors\<close>

text \<open>
  C3: when the transmission of a pending event fails with a connection error, the queue
  is to go offline, put the event back to Waiting, and pause the loop without trying
  further events. The loop of the source does the first two and goes on: the
  \<open>catch\<close> of lines 60 to 63 is inside the callback of line 55 and the \<open>for\<close> of
  line 54 takes the next event. With two waiting messages and an unreachable server, the
  loop hands both transaction ids to the transport; both events wait afterwards and
  none is removed.
\<close>

theorem sendLoop_goes_on_after_ConnectionError:
  "trace (sendLoop env_unreachable q_two)
     = [LoopStart, Process 1, Transmit ''t1'', Process 2, Transmit ''t2''] \<and>
   offline (sendLoop env_unreachable q_two) \<and>
   map status (pendingEvents (sendLoop env_unreachable q_two)) = [Waiting, Waiting] \<and>
   map pe_key (pendingEvents (sendLoop env_unreachable q_two)) = [(''!r'', 1), (''!r'', 2)]"
  by code_simp

subsection \<open>Redacting a target that is gone\<close>

text \<open>
  C7: \<open>enqueueRedaction\<close> with a local transaction id that no pending event has
  (the target was aborted or removed before) returns without an error and leaves the
  queue, its collection and the store as they are. So redacting the same target twice
  by its local transaction id gives what redacting it once gives: when the target is
  absent or not yet sent, the first call leaves no pending event with that transaction
  id, and the second call changes nothing.
\<close>

theorem enqueueRedaction_twice:
  assumes x: "isTxnId e x"
    and dq: "distinct (map (\<lambda>p. queueIndex (data p)) (pendingEvents q))"
    and dt: "distinct (map (\<lambda>p. txnId (data p)) (pendingEvents q))"
    and un: "\<forall>pe. find (\<lambda>pe. txnId (data pe) = x) (pendingEvents q) = Some pe \<longrightarrow>
               \<not> truthy (remoteId (data pe)) \<and> status pe \<noteq> Sending \<and> no_fault_removing e pe"
  shows "(find (\<lambda>pe. txnId (data pe) = x) (pendingEvents q) = None \<longrightarrow>
            enqueueRedaction e x reason t q = (None, q)) \<and>
         fst (enqueueRedaction e x reason t q) = None \<and>
         find (\<lambda>pe. txnId (data pe) = x) (pendingEvents (snd (enqueueRedaction e x reason t q))) = None \<and>
         enqueueRedaction e x reason' t' (snd (enqueueRedaction e x reason t q)) =
           (None, snd (enqueueRedaction e x reason t q))"
proof (cases "find (\<lambda>pe. txnId (data pe) = x) (pendingEvents q)")
  case None
  then show ?thesis using x by (simp add: enqueueRedaction_def)
next
  case (Some pe)
  then have m: "pe \<in> set (pendingEvents q)" and tx: "txnId (data pe) = x"
    using find_Some_mem[of "\<lambda>pe. txnId (data pe) = x" "pendingEvents q" pe] by simp_all
  have u: "\<not> truthy (remoteId (data pe))" "status pe \<noteq> Sending" "no_fault_removing e pe"
    using un Some by simp_all
  let ?q' = "q\<lparr>storage := AList.delete (pe_key pe) (storage q), pendingEvents := remove1 pe (pendingEvents q)\<rparr>"
  have r: "enqueueRedaction e x reason t q = (None, ?q')"
    using x Some u removeEvent_ok[OF dq m u(3)] by (simp add: enqueueRedaction_def abort_def)
  have "x \<notin> set (map (\<lambda>p. txnId (data p)) (remove1 pe (pendingEvents q)))"
    using distinct_map_remove1[OF dt m] tx by simp
  then have "\<forall>p\<in>set (remove1 pe (pendingEvents q)). txnId (data p) \<noteq> x" by auto
  then have n: "find (\<lambda>pe. txnId (data pe) = x) (pendingEvents ?q') = None"
    by (simp add: find_None_iff)
  have "enqueueRedaction e x reason' t' ?q' = (None, ?q')"
    using x n by (simp add: enqueueRedaction_def)
  then show ?thesis using r n Some by simp
qed

theorem enqueueRedaction_twice_witness:
  "enqueueRedaction env_ok ''t1'' ''spam'' ''t2'' q_waiting =
     (None, q_waiting\<lparr>storage := [], pendingEvents := []\<rparr>) \<and>
   enqueueRedaction env_ok ''t1'' ''again'' ''t3'' (snd (enqueueRedaction env_ok ''t1'' ''spam'' ''t2'' q_waiting)) =
     (None, q_waiting\<lparr>storage := [], pendingEvents := []\<rparr>)"
proof -
  let ?pe = "createPendingEvent 0 (message 1 ''t1'')"
  have 1: "isTxnId env_ok ''t1''" by (simp add: env_ok_def)
  have 2: "distinct (map (\<lambda>p. queueIndex (data p)) (pendingEvents q_waiting))" by (simp add: q_waiting_simps)
  have 3: "distinct (map (\<lambda>p. txnId (data p)) (pendingEvents q_waiting))" by (simp add: q_waiting_simps)
  have 4: "\<forall>pe. find (\<lambda>pe. txnId (data pe) = ''t1'') (pendingEvents q_waiting) = Some pe \<longrightarrow>
               \<not> truthy (remoteId (data pe)) \<and> status pe \<noteq> Sending \<and> no_fault_removing env_ok pe"
    by (simp add: q_waiting_simps createPendingEvent_def message_def no_fault_removing_def env_ok_def)
  have a: "enqueueRedaction env_ok ''t1'' ''spam'' ''t2'' q_waiting =
     (None, q_waiting\<lparr>storage := [], pendingEvents := []\<rparr>)"
    by (simp add: enqueueRedaction_def abort_def removeEvent_def indexOf_def same_object_def Let_def
        store_remove_def txn_complete_def env_ok_def q_waiting_simps createPendingEvent_def message_def
        sa_remove_def pe_key_def)
  show ?thesis
    using enqueueRedaction_twice[OF 1 2 3 4, of "''spam''" "''t2''" "''again''" "''t3''"] a by simp
qed

subsection \<open>An update after the queue position was given again\<close>

text \<open>
  C10: an update of a pending event by the send loop is to write the record only when
  the store still has it, so that an event whose record a racing remote echo has removed
  is not created again (the comment of lines 267 and 268). The check of line 269 asks
  only whether some record has the key (room, queue position) of the event, and a queue
  position whose record was removed is given to the next event that is enqueued. In the
  race of \<open>q_reused\<close> the message \<open>t1\<close> was sent, its echo has removed its record and
  the event, and the message \<open>t3\<close> has queue position 1 as \<open>t1\<close> had: the collection and
  the store hold \<open>t3\<close> only, and the object of \<open>t1\<close> is not in the collection. The
  update of \<open>t1\<close> by the loop finds the record of \<open>t3\<close> under its key and writes the
  data of \<open>t1\<close> over it, in the transaction of line 107 and, through
  \<open>_tryUpdateEvent\<close>, in the store: the removed record is there again and the record of
  \<open>t3\<close> is lost.
\<close>

theorem tryUpdateEvent_overwrites_newer_record:
  "pendingEvents q_reused = [createPendingEvent 1 (message 1 ''t3'')] \<and>
   storage q_reused = [((''!r'', 1), message 1 ''t3'')] \<and>
   indexOf (pendingEvents q_reused) sent_t1 = None \<and>
   data sent_t1 = (message 1 ''t1'')\<lparr>remoteId := Str ''$t1''\<rparr> \<and>
   tryUpdateEventWithTxn env_ok sent_t1 (storage q_reused)
     = Inr [((''!r'', 1), (message 1 ''t1'')\<lparr>remoteId := Str ''$t1''\<rparr>)] \<and>
   storage (snd (tryUpdateEvent env_ok sent_t1 q_reused))
     = [((''!r'', 1), (message 1 ''t1'')\<lparr>remoteId := Str ''$t1''\<rparr>)]"
  by code_simp

end
